theory Spec2Isabelle
  imports Main "HOL-Library.Word"
begin

unbundle bit_operations_syntax

section \<open>Machine types of the source\<close>

text \<open>
  The C types of the source: \<open>Size\<close> is the unsigned 64-bit \<open>size_t\<close>, \<open>int\<close> is a
  signed 32-bit integer, \<open>int64\<close> a signed 64-bit integer, \<open>Oid\<close> and \<open>uint32\<close> are unsigned
  32-bit.  All of them are words, so that \<open>+\<close> wraps as the machine does; a signed
  quantity is read with \<open>sint\<close>.
\<close>

type_synonym Size = "64 word"
type_synonym cint = "32 word"
type_synonym int64 = "64 word"
type_synonym uint32 = "32 word"
type_synonym Oid = "32 word"

definition NUL :: char where
  "NUL = CHR 0x00"

text \<open>Ways in which a run leaves the normal control flow of the C code.\<close>

datatype fault =
    OutOfBoundsRead
  | BufferOverrun
  | NegativeCopyLength
  | NullPointerDereference

section \<open>TextBlobStore: bounds-checked fetch\<close>

text \<open>
  \<open>qtext_fetch\<close> (lines 2543-2559).  The buffer is \<open>None\<close> for a NULL pointer.  The result
  \<open>Inr None\<close> is the NULL return, \<open>Inr (Some p)\<close> is the pointer \<open>buffer + p\<close>.  The one
  memory read of the function, \<open>buffer[query_offset + query_len]\<close>, is a fault when the
  index is outside the bytes the buffer really has.  The sum \<open>query_offset + query_len\<close>
  is computed in \<open>Size\<close> after the non-negative \<open>int\<close> has been converted, and wraps.
  The parameters \<open>query_offset\<close> and \<open>query_len\<close> of the C functions are written
  \<open>q_offset\<close> and \<open>q_len\<close> throughout, the longer names being fields of \<open>pgssEntry\<close>.
\<close>

definition qtext_fetch :: "Size \<Rightarrow> cint \<Rightarrow> string option \<Rightarrow> Size \<Rightarrow> fault + Size option" where
  "qtext_fetch q_offset q_len buffer buffer_size =
     (case buffer of
        None \<Rightarrow> Inr None
      | Some buf \<Rightarrow>
          if sint q_len < 0 \<or> q_offset + scast q_len \<ge> buffer_size then Inr None
          else if unat (q_offset + scast q_len) \<ge> length buf then Inl OutOfBoundsRead
          else if buf ! unat (q_offset + scast q_len) \<noteq> NUL then Inr None
          else Inr (Some q_offset))"

text \<open>The C string that starts at byte \<open>p\<close> of a buffer: the bytes up to the first NUL.\<close>

definition c_string_at :: "string \<Rightarrow> nat \<Rightarrow> string" where
  "c_string_at buf p = takeWhile (\<lambda>c. c \<noteq> NUL) (drop p buf)"

section \<open>Fingerprinter: the normalized query text\<close>

text \<open>
  \<open>pgssLocationLen\<close> (lines 193-197); the field \<open>length\<close> is written \<open>loc_length\<close>.  The
  positions are C \<open>int\<close>s that stay between 0 and the query length on every input the
  properties below speak about, and are mathematical integers here.
\<close>

record pgssLocationLen =
  location :: int
  loc_length :: int

text \<open>
  \<open>RecordConstLocation\<close> (lines 3343-3363), which the query jumble calls with the location
  of every constant it visits: a location of -1 is unknown and not recorded, and every
  recorded length starts as -1.  The array \<open>jstate->clocations\<close> is the list of its
  records.
\<close>

definition RecordConstLocation :: "pgssLocationLen list \<Rightarrow> int \<Rightarrow> pgssLocationLen list" where
  "RecordConstLocation clocations loc =
     (if 0 \<le> loc then clocations @ [\<lparr>location = loc, loc_length = - 1\<rparr>] else clocations)"

text \<open>
  The core scanner is the server's, not this repository's: it is a parameter.  What
  \<open>fill_in_constant_lengths\<close> sees of it is, for each call of \<open>core_yylex\<close>, the location
  \<open>yylloc\<close> of the token returned and the place where the text of that token ends, at
  which flex has put a zero byte in \<open>scanbuf\<close> (the comment of lines 3537-3540).  A
  scanner is the list of the tokens it returns for the query, in order; after the last
  one \<open>core_yylex\<close> returns 0.
\<close>

record token =
  yylloc :: int
  tok_end :: nat

text \<open>
  \<open>strlen(yyextra.scanbuf + loc)\<close> (line 3541) while \<open>t\<close> is the current token: the scan
  buffer holds the bytes of the query and its terminator, with a zero byte where the
  current token ends.
\<close>

definition scanbuf :: "string \<Rightarrow> token \<Rightarrow> string" where
  "scanbuf query t = (query @ [NUL])[tok_end t := NUL]"

definition token_strlen :: "string \<Rightarrow> token \<Rightarrow> int \<Rightarrow> int" where
  "token_strlen query t loc = int (length (c_string_at (scanbuf query t) (nat loc)))"

text \<open>
  The inner loop of \<open>fill_in_constant_lengths\<close> (lines 3504-3544) for the constant at
  \<open>loc\<close>: tokens are taken until one lies at or after \<open>loc\<close>; if the query has a \<open>-\<close> at
  \<open>loc\<close> the next token is taken as well.  The result is the length to assign, or
  \<open>None\<close> when the scanner reached the end of the string (\<open>tok == 0\<close>), and the tokens
  not yet taken.  Reading \<open>query[loc]\<close> beyond the terminator of the query is a fault.
\<close>

fun lex_constant :: "string \<Rightarrow> int \<Rightarrow> token list \<Rightarrow> fault + (int option \<times> token list)" where
  "lex_constant query loc [] = Inr (None, [])"
| "lex_constant query loc (t # ts) =
     (if loc \<le> yylloc t then
        (if int (length query) < loc then Inl OutOfBoundsRead
         else if (query @ [NUL]) ! nat loc = CHR ''-'' then
           (case ts of
              [] \<Rightarrow> Inr (None, [])
            | t' # ts' \<Rightarrow> Inr (Some (token_strlen query t' loc), ts'))
         else Inr (Some (token_strlen query t loc), ts))
      else lex_constant query loc ts)"

text \<open>
  The outer loop of \<open>fill_in_constant_lengths\<close> (lines 3493-3551) over the sorted
  records: a record whose location is not beyond the last one is a duplicate and keeps
  its length; when the scanner reaches the end of the string the loop stops and the
  remaining records keep theirs.
\<close>

fun fill_loop :: "string \<Rightarrow> pgssLocationLen list \<Rightarrow> int \<Rightarrow> token list \<Rightarrow> fault + pgssLocationLen list" where
  "fill_loop query [] last_loc tokens = Inr []"
| "fill_loop query (c # cs) last_loc tokens =
     (if location c \<le> last_loc then
        (case fill_loop query cs last_loc tokens of
           Inl f \<Rightarrow> Inl f
         | Inr cs' \<Rightarrow> Inr (c # cs'))
      else
        (case lex_constant query (location c) tokens of
           Inl f \<Rightarrow> Inl f
         | Inr (None, rest) \<Rightarrow> Inr (c # cs)
         | Inr (Some n, rest) \<Rightarrow>
             (case fill_loop query cs (location c) rest of
                Inl f \<Rightarrow> Inl f
              | Inr cs' \<Rightarrow> Inr (c\<lparr>loc_length := n\<rparr> # cs'))))"

text \<open>
  \<open>fill_in_constant_lengths\<close> (lines 3466-3554): the records are sorted by location
  (\<open>qsort\<close> with \<open>comp_location\<close>, lines 3559-3571) and the lengths filled in.  \<open>qsort\<close>
  leaves the order of records with equal locations open; they are kept in their order
  here, which makes no difference for records that \<open>RecordConstLocation\<close> has written,
  since those are equal when their locations are.
\<close>

definition fill_in_constant_lengths ::
  "token list \<Rightarrow> pgssLocationLen list \<Rightarrow> string \<Rightarrow> fault + pgssLocationLen list" where
  "fill_in_constant_lengths tokens clocations query =
     fill_loop query (sort_key location clocations) (- 1) tokens"

text \<open>
  The loop of \<open>generate_normalized_query\<close> (lines 3400-3425) over \<open>jstate->clocations\<close>,
  after \<open>fill_in_constant_lengths\<close> has sorted the records and filled in the lengths.
  The accumulator \<open>norm\<close> holds the bytes written to
  \<open>norm_query\<close> so far, so \<open>n_quer_loc\<close> is its length.  A \<open>memcpy\<close> whose byte count is
  negative (the \<open>Assert(len_to_wrt >= 0)\<close> of line 3415) or whose source range leaves
  the query string is a fault.
\<close>

fun norm_loop ::
  "string \<Rightarrow> pgssLocationLen list \<Rightarrow> int \<Rightarrow> int \<Rightarrow> int \<Rightarrow> string \<Rightarrow> fault + (string \<times> int)" where
  "norm_loop query [] quer_loc last_off last_tok_len norm = Inr (norm, quer_loc)"
| "norm_loop query (c # cs) quer_loc last_off last_tok_len norm =
     (let off = location c; tok_len = loc_length c in
      if tok_len < 0 then norm_loop query cs quer_loc last_off last_tok_len norm
      else
        let len_to_wrt = off - last_off - last_tok_len in
        if len_to_wrt < 0 then Inl NegativeCopyLength
        else if quer_loc < 0 \<or> int (length query) < quer_loc + len_to_wrt then Inl OutOfBoundsRead
        else norm_loop query cs (off + tok_len) off tok_len
               (norm @ take (nat len_to_wrt) (drop (nat quer_loc) query) @ ''?''))"

text \<open>
  The bytes that \<open>generate_normalized_query\<close> writes to \<open>norm_query\<close> before the final
  NUL, given the filled-in records: the loop, then the rest of the query (lines
  3431-3435).
\<close>

definition norm_bytes :: "pgssLocationLen list \<Rightarrow> string \<Rightarrow> int \<Rightarrow> fault + string" where
  "norm_bytes clocations query q_len =
     (case norm_loop query clocations 0 0 0 [] of
        Inl f \<Rightarrow> Inl f
      | Inr (norm, quer_loc) \<Rightarrow>
          let len_to_wrt = q_len - quer_loc in
          if len_to_wrt < 0 then Inl NegativeCopyLength
          else if quer_loc < 0 \<or> int (length query) < quer_loc + len_to_wrt then Inl OutOfBoundsRead
          else Inr (norm @ take (nat len_to_wrt) (drop (nat quer_loc) query)))"

text \<open>
  \<open>generate_normalized_query\<close> (lines 3378-3442), with the scanner's tokens for the
  query and the array \<open>jstate->clocations\<close> as the query jumble left it.  The result
  buffer has \<open>query_len + 1\<close>
  bytes (line 3398), so more than \<open>query_len\<close> bytes before the NUL overrun it; this
  is what \<open>Assert(n_quer_loc <= query_len)\<close> (line 3437) guards.  The result is the
  string and the length stored to \<open>*query_len_p\<close>.
\<close>

definition generate_normalized_query ::
  "token list \<Rightarrow> pgssLocationLen list \<Rightarrow> string \<Rightarrow> int \<Rightarrow> fault + (string \<times> int)" where
  "generate_normalized_query tokens clocations query q_len =
     (case fill_in_constant_lengths tokens clocations query of
        Inl f \<Rightarrow> Inl f
      | Inr filled \<Rightarrow>
          (case norm_bytes filled query q_len of
             Inl f \<Rightarrow> Inl f
           | Inr norm \<Rightarrow>
               if q_len < int (length norm) then Inl BufferOverrun
               else Inr (norm, int (length norm))))"

text \<open>
  The normalization as the specification words it: the text is cut at the resolved
  spans into the pieces between them (\<open>gaps\<close>) and the constants themselves (\<open>toks\<close>);
  the normalized text is the same pieces with one placeholder where each constant was.
  Spans of negative length are unresolved and take no part.
\<close>

definition resolved :: "pgssLocationLen list \<Rightarrow> (nat \<times> nat) list" where
  "resolved clocations =
     map (\<lambda>c. (nat (location c), nat (loc_length c))) (filter (\<lambda>c. 0 \<le> loc_length c) clocations)"

fun gaps :: "string \<Rightarrow> nat \<Rightarrow> (nat \<times> nat) list \<Rightarrow> string list" where
  "gaps text pos [] = [drop pos text]"
| "gaps text pos ((off, len) # spans) = take (off - pos) (drop pos text) # gaps text (off + len) spans"

definition toks :: "string \<Rightarrow> (nat \<times> nat) list \<Rightarrow> string list" where
  "toks text spans = map (\<lambda>(off, len). take len (drop off text)) spans"

fun weave :: "string list \<Rightarrow> string list \<Rightarrow> string" where
  "weave (g # gs) (t # ts) = g @ t @ weave gs ts"
| "weave (g # gs) [] = g"
| "weave [] ts = []"

text \<open>
  Spans that are sorted by location, do not overlap and lie within a text of the given
  length, starting at position \<open>pos\<close>.
\<close>

fun spans_within :: "nat \<Rightarrow> nat \<Rightarrow> (nat \<times> nat) list \<Rightarrow> bool" where
  "spans_within n pos [] = (pos \<le> n)"
| "spans_within n pos ((off, len) # spans) = (pos \<le> off \<and> spans_within n (off + len) spans)"

text \<open>
  Tokens as a scanner yields them for a text of the given length: each token has at
  least one byte and lies within the text, and the tokens follow one another from
  position \<open>pos\<close> on without overlap.
\<close>

fun scanner_ok :: "nat \<Rightarrow> int \<Rightarrow> token list \<Rightarrow> bool" where
  "scanner_ok n pos [] = True"
| "scanner_ok n pos (t # ts) =
     (pos \<le> yylloc t \<and> yylloc t < int (tok_end t) \<and> tok_end t \<le> n \<and> scanner_ok n (int (tok_end t)) ts)"

text \<open>
  Constant locations as the comment of \<open>fill_in_constant_lengths\<close> expects them (lines
  3444-3465), relative to the tokens: a minus sign at a constant's location begins a
  negative constant, so the token after it is not the location of another constant.
\<close>

fun token_aligned :: "string \<Rightarrow> int set \<Rightarrow> token list \<Rightarrow> bool" where
  "token_aligned query L [] = True"
| "token_aligned query L [t] = True"
| "token_aligned query L (t # t' # ts) =
     ((yylloc t \<in> L \<and> (query @ [NUL]) ! nat (yylloc t) = CHR ''-'' \<longrightarrow> yylloc t' \<notin> L)
      \<and> token_aligned query L (t' # ts))"

text \<open>The array \<open>jstate->clocations\<close> after the query jumble has visited constants at \<open>locs\<close>.\<close>

definition recorded :: "int list \<Rightarrow> pgssLocationLen list" where
  "recorded locs = foldl RecordConstLocation [] locs"

text \<open>
  The constant spans of a query as the scanner resolves them: the records whose length
  \<open>fill_in_constant_lengths\<close> has filled in, as pairs of offset and length.
\<close>

definition constant_spans :: "token list \<Rightarrow> pgssLocationLen list \<Rightarrow> string \<Rightarrow> (nat \<times> nat) list" where
  "constant_spans tokens clocations query =
     (case fill_in_constant_lengths tokens clocations query of
        Inl f \<Rightarrow> []
      | Inr filled \<Rightarrow> resolved filled)"

section \<open>Data model of the rule store\<close>

text \<open>
  The firewall modes and rule engines (lines 260-275), and the rule kinds, which are
  the character codes \<open>'d'\<close>, \<open>'w'\<close> and \<open>'b'\<close> (lines 286-291).
\<close>

datatype PGFWMode =
    PGFW_MODE_DISABLED
  | PGFW_MODE_LEARNING
  | PGFW_MODE_PERMISSIVE
  | PGFW_MODE_ENFORCING

datatype PGFWEngineType =
    PGFW_ENGINE_NONE
  | PGFW_ENGINE_WHITELIST
  | PGFW_ENGINE_BLACKLIST
  | PGFW_ENGINE_HYBRID

definition PGFW_DUMMY_ENTRY :: uint32 where
  "PGFW_DUMMY_ENTRY = 100"

definition PGFW_WHITELIST_ENTRY :: uint32 where
  "PGFW_WHITELIST_ENTRY = 119"

definition PGFW_BLACKLIST_ENTRY :: uint32 where
  "PGFW_BLACKLIST_ENTRY = 98"

definition InvalidOid :: Oid where
  "InvalidOid = 0"

text \<open>
  \<open>pgssHashKey\<close>, \<open>Counters\<close> and \<open>pgssEntry\<close> (lines 133-172).  Both the key and the entry
  have a field called \<open>type\<close> in the source: the \<open>char\<close> of the key is \<open>key_type\<close>, the
  \<open>uint32\<close> of the entry is \<open>entry_type\<close>.  The spinlock of an entry is left out: runs
  are sequential here.
\<close>

record pgssHashKey =
  userid :: Oid
  queryid :: uint32
  key_type :: "8 word"

record Counters =
  calls :: int64
  banned :: int64

record pgssEntry =
  key :: pgssHashKey
  counters :: Counters
  query_offset :: Size
  query_len :: cint
  encoding :: cint
  entry_type :: uint32

text \<open>\<open>pgssSharedState\<close> (lines 177-188), without the locks and the unused median.\<close>

record pgssSharedState =
  mean_query_len :: Size
  extent :: Size
  n_writers :: cint
  gc_count :: cint
  error_count :: int64
  warning_count :: int64

text \<open>Messages raised at level WARNING, which reach the client.\<close>

datatype notice =
    CapacityWarning
  | ProhibitedWarning string

text \<open>
  Errors raised with \<open>ereport(ERROR, ...)\<close> or \<open>elog(ERROR, ...)\<close>, which abandon
  the running function, and \<open>Crash\<close> for a memory fault of the backend process.
\<close>

datatype error =
    ProhibitedStatement string
  | NoRuleEngine
  | NotLoaded
  | MustBeSuperuser
  | NotDisabledMode
  | BadRuleType
  | CouldNotStoreText
  | CouldNotAllocEntry
  | NotOneStatement
  | FileError
  | InvalidAllocRequest
  | Crash fault

text \<open>
  Everything the functions of the file read and write.
  \<^item> \<open>loaded\<close>: the pointers \<open>pgss\<close> and \<open>pgss_hash\<close> are set (the "safety check" of
    most entry points).
  \<^item> \<open>pgss\<close>: the shared scalars.
  \<^item> \<open>pgss_hash\<close>: the entries of the shared hash table, in the order in which
    \<open>hash_seq_search\<close> enumerates them.  A pointer to an entry is represented by the
    key under which the entry is stored.
  \<^item> \<open>pgfw_mode\<close>, \<open>pgfw_rule_engine\<close>, \<open>pgss_max\<close>: the configuration variables.
  \<^item> \<open>qtext_file\<close>: the bytes of the external query text file.
  \<^item> \<open>io_script\<close>: the outcomes of the coming file operations that can fail, in
    order; \<open>True\<close> is success, and an exhausted script means success.
  \<^item> \<open>stale_type\<close>: the content of the \<open>type\<close> field of the hash table element that
    \<open>HASH_ENTER\<close> hands out next.  \<open>HASH_ENTER\<close> copies the key into the element and
    leaves the rest of its memory as it was; shared memory is zero-filled when the
    server starts.
  \<^item> \<open>notices\<close>: the warnings emitted so far.
  \<^item> \<open>statements_file\<close>, \<open>counter_file\<close>: the two files written at shutdown and read
    at startup, \<open>None\<close> when absent; \<open>pg_major_version\<close> is the constant
    \<open>PGSS_PG_MAJOR_VERSION\<close>, which comes from the server's headers.
\<close>

record stats_file =
  file_header :: uint32
  file_pgver :: uint32
  file_num :: cint
  file_records :: "(pgssEntry \<times> string) list"

record fw_state =
  loaded :: bool
  pgss :: pgssSharedState
  pgss_hash :: "pgssEntry list"
  pgfw_mode :: PGFWMode
  pgfw_rule_engine :: PGFWEngineType
  pgss_max :: cint
  qtext_file :: string
  io_script :: "bool list"
  stale_type :: uint32
  notices :: "notice list"
  statements_file :: "stats_file option"
  counter_file :: "(int64 \<times> int64) option"
  pg_major_version :: uint32

definition next_io :: "fw_state \<Rightarrow> bool \<times> fw_state" where
  "next_io s =
     (case io_script s of
        [] \<Rightarrow> (True, s)
      | ok # rest \<Rightarrow> (ok, s\<lparr>io_script := rest\<rparr>))"

subsection \<open>The hash table\<close>

text \<open>
  \<open>hash_search\<close> with \<open>HASH_FIND\<close> and \<open>HASH_REMOVE\<close>, under the match function
  \<open>pgss_match_fn\<close> (lines 1249-1261), which compares the three fields of the key.
\<close>

definition hash_find :: "pgssHashKey \<Rightarrow> pgssEntry list \<Rightarrow> pgssEntry option" where
  "hash_find k tab = find (\<lambda>e. key e = k) tab"

definition hash_remove :: "pgssHashKey \<Rightarrow> pgssEntry list \<Rightarrow> pgssEntry list" where
  "hash_remove k tab = filter (\<lambda>e. key e \<noteq> k) tab"

text \<open>An assignment through a pointer to the entry stored under key \<open>k\<close>.\<close>

definition update_entry :: "pgssHashKey \<Rightarrow> (pgssEntry \<Rightarrow> pgssEntry) \<Rightarrow> pgssEntry list \<Rightarrow> pgssEntry list" where
  "update_entry k f tab = map (\<lambda>e. if key e = k then f e else e) tab"

text \<open>
  \<open>entry_alloc\<close> (lines 2254-2287).  The result is the pointer to the entry, or \<open>None\<close>
  for NULL.  A new entry gets zeroed counters and the text reference; its \<open>type\<close> field
  is not written and keeps what the element held.
\<close>

definition entry_alloc ::
  "pgssHashKey \<Rightarrow> Size \<Rightarrow> cint \<Rightarrow> cint \<Rightarrow> bool \<Rightarrow> fw_state \<Rightarrow> pgssHashKey option \<times> fw_state" where
  "entry_alloc k q_offset q_len enc sticky s =
     (if sint (pgss_max s) \<le> int (length (pgss_hash s))
      then (None, s\<lparr>notices := notices s @ [CapacityWarning]\<rparr>)
      else
        (case hash_find k (pgss_hash s) of
           Some e \<Rightarrow> (Some k, s)
         | None \<Rightarrow>
             (Some k,
              s\<lparr>pgss_hash := pgss_hash s @
                   [\<lparr>key = k, counters = \<lparr>calls = 0, banned = 0\<rparr>,
                     query_offset = q_offset, query_len = q_len, encoding = enc,
                     entry_type = stale_type s\<rparr>]\<rparr>)))"

section \<open>DecisionEngine\<close>

text \<open>
  \<open>__lookup_rule\<close>, \<open>lookup_rule\<close>, \<open>lookup_whitelist\<close> and \<open>lookup_blacklist\<close> (lines
  3958-4028).  Names cannot start with an underscore here: \<open>__f\<close> of the source is
  \<open>inner_f\<close>.  The key's \<open>char\<close> receives the \<open>uint32\<close> rule type truncated.
\<close>

definition inner_lookup_rule :: "pgssHashKey \<Rightarrow> fw_state \<Rightarrow> pgssHashKey option" where
  "inner_lookup_rule k s = map_option key (hash_find k (pgss_hash s))"

definition lookup_rule :: "Oid \<Rightarrow> uint32 \<Rightarrow> uint32 \<Rightarrow> fw_state \<Rightarrow> pgssHashKey option" where
  "lookup_rule uid qid rule_type s =
     (let k = \<lparr>userid = 0, queryid = qid, key_type = ucast rule_type\<rparr> in
      if uid \<noteq> InvalidOid
      then (case inner_lookup_rule (k\<lparr>userid := uid\<rparr>) s of
              Some e \<Rightarrow> Some e
            | None \<Rightarrow> inner_lookup_rule (k\<lparr>userid := InvalidOid\<rparr>) s)
      else inner_lookup_rule (k\<lparr>userid := InvalidOid\<rparr>) s)"

definition lookup_whitelist :: "Oid \<Rightarrow> uint32 \<Rightarrow> fw_state \<Rightarrow> pgssHashKey option" where
  "lookup_whitelist uid qid s = lookup_rule uid qid PGFW_WHITELIST_ENTRY s"

definition lookup_blacklist :: "Oid \<Rightarrow> uint32 \<Rightarrow> fw_state \<Rightarrow> pgssHashKey option" where
  "lookup_blacklist uid qid s = lookup_rule uid qid PGFW_BLACKLIST_ENTRY s"

text \<open>
  \<open>collect_entry_statistics\<close> (lines 3884-3910): the \<open>switch\<close> is on the \<open>type\<close> field of
  the entry, not on the key.
\<close>

definition count_entry :: "pgssEntry \<Rightarrow> pgssEntry" where
  "count_entry e =
     (if entry_type e = PGFW_WHITELIST_ENTRY
      then e\<lparr>counters := (counters e)\<lparr>calls := calls (counters e) + 1\<rparr>\<rparr>
      else if entry_type e = PGFW_BLACKLIST_ENTRY
      then e\<lparr>counters := (counters e)\<lparr>banned := banned (counters e) + 1\<rparr>\<rparr>
      else e)"

definition collect_entry_statistics :: "pgssHashKey option \<Rightarrow> fw_state \<Rightarrow> fw_state" where
  "collect_entry_statistics entry s =
     (case entry of
        None \<Rightarrow> s
      | Some k \<Rightarrow> s\<lparr>pgss_hash := update_entry k count_entry (pgss_hash s)\<rparr>)"

text \<open>\<open>__to_be_prohibited\<close> (lines 3917-3952) and \<open>to_be_prohibited\<close> (lines 4044-4077).\<close>

definition inner_to_be_prohibited ::
  "pgssHashKey option \<Rightarrow> pgssHashKey option \<Rightarrow> fw_state \<Rightarrow> (error + bool) \<times> fw_state" where
  "inner_to_be_prohibited whitelist_entry blacklist_entry s =
     (let whitelist_hit = (whitelist_entry \<noteq> None);
          blacklist_hit = (blacklist_entry \<noteq> None) in
      case pgfw_rule_engine s of
        PGFW_ENGINE_WHITELIST \<Rightarrow>
          (Inr (\<not> whitelist_hit), collect_entry_statistics whitelist_entry s)
      | PGFW_ENGINE_BLACKLIST \<Rightarrow>
          (Inr blacklist_hit, collect_entry_statistics blacklist_entry s)
      | PGFW_ENGINE_HYBRID \<Rightarrow>
          (Inr (\<not> whitelist_hit \<or> blacklist_hit),
           if whitelist_hit \<and> \<not> blacklist_hit then collect_entry_statistics whitelist_entry s
           else if blacklist_hit then collect_entry_statistics blacklist_entry s
           else s)
      | PGFW_ENGINE_NONE \<Rightarrow> (Inl NoRuleEngine, s))"

definition to_be_prohibited :: "Oid \<Rightarrow> uint32 \<Rightarrow> fw_state \<Rightarrow> (error + bool) \<times> fw_state" where
  "to_be_prohibited uid qid s =
     (let blacklist_entry =
            (if pgfw_rule_engine s = PGFW_ENGINE_BLACKLIST \<or> pgfw_rule_engine s = PGFW_ENGINE_HYBRID
             then lookup_blacklist uid qid s else None);
          whitelist_entry =
            (if blacklist_entry = None
             then (if pgfw_rule_engine s = PGFW_ENGINE_WHITELIST \<or> pgfw_rule_engine s = PGFW_ENGINE_HYBRID
                   then lookup_whitelist uid qid s else None)
             else None)
      in inner_to_be_prohibited whitelist_entry blacklist_entry s)"

section \<open>TextBlobStore: append and compaction\<close>

text \<open>
  A C string is the list of its bytes before the terminating NUL, so \<open>strlen\<close> is the
  length of the list, stored to an \<open>int\<close>.
\<close>

definition strlen :: "string \<Rightarrow> cint" where
  "strlen str = of_nat (length str)"

text \<open>
  Writing bytes at an offset of a file, as \<open>lseek\<close> followed by \<open>write\<close> does: a gap
  between the end of the file and the offset reads as zero bytes.
\<close>

definition file_write :: "string \<Rightarrow> nat \<Rightarrow> string \<Rightarrow> string" where
  "file_write file off bytes =
     take off (file @ replicate (off - length file) NUL) @ bytes @ drop (off + length bytes) file"

text \<open>
  \<open>qtext_store\<close> (lines 2386-2455).  The result is the returned flag, the offset stored
  to \<open>*query_offset\<close>, and the garbage collection count that is stored to \<open>*gc_count\<close>
  when that pointer is given.  Opening, seeking and writing are one step of the I/O
  script: each of them failing leads to the same \<open>error\<close> label.  The \<open>query_len + 1\<close>
  bytes written (an \<open>int\<close> converted to \<open>size_t\<close>) are the string and its NUL.
\<close>

definition qtext_store :: "string \<Rightarrow> cint \<Rightarrow> fw_state \<Rightarrow> (bool \<times> Size \<times> cint) \<times> fw_state" where
  "qtext_store query q_len s =
     (let off = extent (pgss s);
          gc = gc_count (pgss s);
          s1 = s\<lparr>pgss := (pgss s)\<lparr>extent := off + scast (q_len + 1),
                                   n_writers := n_writers (pgss s) + 1\<rparr>\<rparr>
      in case next_io s1 of
           (ok, s2) \<Rightarrow>
             if ok
             then ((True, off, gc),
                   s2\<lparr>qtext_file := file_write (qtext_file s2) (unat off)
                                       (take (unat (scast (q_len + 1) :: Size)) (query @ [NUL])),
                      pgss := (pgss s2)\<lparr>n_writers := n_writers (pgss s2) - 1\<rparr>\<rparr>)
             else ((False, off, gc),
                   s2\<lparr>pgss := (pgss s2)\<lparr>n_writers := n_writers (pgss s2) - 1\<rparr>\<rparr>))"

text \<open>
  \<open>qtext_load_file\<close> (lines 2468-2535): the whole file, or NULL when a step fails.  The
  size returned in \<open>*buffer_size\<close> is the length of the file.
\<close>

definition qtext_load_file :: "fw_state \<Rightarrow> string option \<times> fw_state" where
  "qtext_load_file s =
     (case next_io s of
        (ok, s1) \<Rightarrow> if ok then (Some (qtext_file s1), s1) else (None, s1))"

text \<open>
  \<open>need_gc_qtexts\<close> (lines 2566-2595).  \<open>512 * pgss_max\<close> is a product of \<open>int\<close>s, converted
  to \<open>Size\<close> for the comparison.
\<close>

definition need_gc_qtexts :: "fw_state \<Rightarrow> bool" where
  "need_gc_qtexts s =
     (if extent (pgss s) < scast (512 * pgss_max s) then False
      else if extent (pgss s) < mean_query_len (pgss s) * scast (pgss_max s) * 2 then False
      else True)"

definition record_gc_qtexts :: "fw_state \<Rightarrow> fw_state" where
  "record_gc_qtexts s = s\<lparr>pgss := (pgss s)\<lparr>gc_count := gc_count (pgss s) + 1\<rparr>\<rparr>"

text \<open>The label \<open>gc_fail\<close> of \<open>gc_qtexts\<close> (lines 2735-2754).\<close>

definition gc_fail :: "fw_state \<Rightarrow> fw_state" where
  "gc_fail s =
     record_gc_qtexts
       (s\<lparr>pgss_hash := map (\<lambda>e. e\<lparr>query_offset := 0, query_len := - 1\<rparr>) (pgss_hash s)\<rparr>)"

text \<open>
  The loop of \<open>gc_qtexts\<close> (lines 2655-2685) over the entries still to visit, with the
  entries already visited, the new extent and the number of texts kept.  The flag is
  \<open>True\<close> when the loop ends and \<open>False\<close> when a write fails (\<open>goto gc_fail\<close>).  The
  \<open>fwrite\<close> reads \<open>query_len + 1\<close> bytes at the fetched pointer.
\<close>

fun gc_loop ::
  "string \<Rightarrow> pgssEntry list \<Rightarrow> pgssEntry list \<Rightarrow> Size \<Rightarrow> cint \<Rightarrow> fw_state
     \<Rightarrow> (fault + bool) \<times> pgssEntry list \<times> Size \<times> cint \<times> fw_state" where
  "gc_loop qbuffer [] visited ext nentries s = (Inr True, visited, ext, nentries, s)"
| "gc_loop qbuffer (e # es) visited ext nentries s =
     (case qtext_fetch (query_offset e) (query_len e) (Some qbuffer) (of_nat (length qbuffer)) of
        Inl f \<Rightarrow> (Inl f, visited @ e # es, ext, nentries, s)
      | Inr None \<Rightarrow>
          gc_loop qbuffer es (visited @ [e\<lparr>query_offset := 0, query_len := - 1\<rparr>]) ext nentries s
      | Inr (Some p) \<Rightarrow>
          if length qbuffer < unat p + unat (scast (query_len e + 1) :: Size)
          then (Inl OutOfBoundsRead, visited @ e # es, ext, nentries, s)
          else
            (case next_io s of
               (ok, s1) \<Rightarrow>
                 if \<not> ok then (Inr False, visited @ e # es, ext, nentries, s1)
                 else
                   gc_loop qbuffer es (visited @ [e\<lparr>query_offset := ext\<rparr>])
                     (ext + scast (query_len e + 1)) (nentries + 1)
                     (s1\<lparr>qtext_file := qtext_file s1 @
                           take (unat (scast (query_len e + 1) :: Size)) (drop (unat p) qbuffer)\<rparr>)))"

text \<open>
  \<open>gc_qtexts\<close> (lines 2609-2755).  The file is opened for writing, which empties it;
  the later \<open>ftruncate\<close> to the bytes just written changes nothing and its failure is
  only logged.  Opening and closing the file are steps of the I/O script.
\<close>

definition gc_qtexts :: "fw_state \<Rightarrow> (error + unit) \<times> fw_state" where
  "gc_qtexts s =
     (if \<not> need_gc_qtexts s then (Inr (), s)
      else
        (case qtext_load_file s of
           (None, s1) \<Rightarrow> (Inr (), s1)
         | (Some qbuffer, s1) \<Rightarrow>
             (case next_io s1 of
                (opened, s2) \<Rightarrow>
                  if \<not> opened then (Inr (), gc_fail s2)
                  else
                    (case gc_loop qbuffer (pgss_hash s2) [] 0 0 (s2\<lparr>qtext_file := []\<rparr>) of
                       (Inl f, tab, ext, nentries, s3) \<Rightarrow> (Inl (Crash f), s3\<lparr>pgss_hash := tab\<rparr>)
                     | (Inr False, tab, ext, nentries, s3) \<Rightarrow> (Inr (), gc_fail (s3\<lparr>pgss_hash := tab\<rparr>))
                     | (Inr True, tab, ext, nentries, s3) \<Rightarrow>
                         (case next_io s3 of
                            (closed, s4) \<Rightarrow>
                              if \<not> closed then (Inr (), gc_fail (s4\<lparr>pgss_hash := tab\<rparr>))
                              else
                                (Inr (),
                                 record_gc_qtexts
                                   (s4\<lparr>pgss_hash := tab,
                                       pgss := (pgss s4)
                                         \<lparr>extent := ext,
                                          mean_query_len :=
                                            (if 0 < sint nentries then ext div scast nentries
                                             else 1024)\<rparr>\<rparr>)))))))"

section \<open>Statement evaluation\<close>

text \<open>\<open>stat_warning_increment\<close> and \<open>stat_error_increment\<close> (lines 1274-1292).\<close>

definition stat_warning_increment :: "fw_state \<Rightarrow> fw_state" where
  "stat_warning_increment s = s\<lparr>pgss := (pgss s)\<lparr>warning_count := warning_count (pgss s) + 1\<rparr>\<rparr>"

definition stat_error_increment :: "fw_state \<Rightarrow> fw_state" where
  "stat_error_increment s = s\<lparr>pgss := (pgss s)\<lparr>error_count := error_count (pgss s) + 1\<rparr>\<rparr>"

text \<open>
  The branch of \<open>pgss_store\<close> that learns a statement (lines 1344-1405).  \<open>jstate\<close> is
  \<open>None\<close> for a NULL pointer and otherwise holds the constant locations that the query
  jumble recorded; \<open>tokens\<close> are the tokens of the core scanner for the query.  The
  shared lock is released and the exclusive lock taken between the two calls of
  \<open>qtext_store\<close>; no other process runs in between here.  The pointer returned by
  \<open>entry_alloc\<close> is dereferenced by the assignment to \<open>entry->type\<close> (line 1401).
\<close>

definition learn_statement ::
  "token list \<Rightarrow> string \<Rightarrow> uint32 \<Rightarrow> pgssLocationLen list option \<Rightarrow> Oid \<Rightarrow> cint \<Rightarrow> fw_state
     \<Rightarrow> (error + unit) \<times> fw_state" where
  "learn_statement tokens query qid jstate uid enc s =
     (case (case jstate of
              None \<Rightarrow> Inr (query, strlen query)
            | Some clocations \<Rightarrow>
                (case generate_normalized_query tokens clocations query (sint (strlen query)) of
                   Inl f \<Rightarrow> Inl f
                 | Inr (norm_query, n) \<Rightarrow> Inr (norm_query, of_int n))) of
        Inl f \<Rightarrow> (Inl (Crash f), s)
      | Inr (text, q_len) \<Rightarrow>
          (case qtext_store text q_len s of
             ((stored, q_offset, gc), s1) \<Rightarrow>
               let do_gc = need_gc_qtexts s1 in
               (case (if \<not> stored \<or> gc_count (pgss s1) \<noteq> gc
                      then (case qtext_store text q_len s1 of
                              ((stored2, q_offset2, gc2), s2) \<Rightarrow> (stored2, q_offset2, s2))
                      else (stored, q_offset, s1)) of
                  (stored', q_offset', s2) \<Rightarrow>
                    if \<not> stored' then (Inr (), s2)
                    else
                      (case entry_alloc
                              \<lparr>userid = uid, queryid = qid, key_type = ucast PGFW_WHITELIST_ENTRY\<rparr>
                              q_offset' q_len enc (jstate \<noteq> None) s2 of
                         (None, s3) \<Rightarrow> (Inl (Crash NullPointerDereference), s3)
                       | (Some k, s3) \<Rightarrow>
                           let s4 = s3\<lparr>pgss_hash :=
                                        update_entry k (\<lambda>e. e\<lparr>entry_type := PGFW_WHITELIST_ENTRY\<rparr>)
                                          (pgss_hash s3)\<rparr>
                           in if do_gc then gc_qtexts s4 else (Inr (), s4)))))"

text \<open>
  \<open>pgss_store\<close> (lines 1301-1414).  \<open>uid\<close> is the result of \<open>GetUserId()\<close> and \<open>enc\<close> that
  of \<open>GetDatabaseEncoding()\<close>; \<open>tokens\<close> are the tokens of the core scanner for the query,
  which only the normalization looks at.  The result \<open>Inl\<close> is an error raised to the caller: the
  statement is aborted.  \<open>Inr ()\<close> is the normal return: the statement goes on.
\<close>

definition pgss_store ::
  "token list \<Rightarrow> string \<Rightarrow> uint32 \<Rightarrow> pgssLocationLen list option \<Rightarrow> Oid \<Rightarrow> cint \<Rightarrow> fw_state
     \<Rightarrow> (error + unit) \<times> fw_state" where
  "pgss_store tokens query qid jstate uid enc s =
     (if \<not> loaded s then (Inr (), s)
      else if pgfw_mode s = PGFW_MODE_ENFORCING then
        (case to_be_prohibited uid qid s of
           (Inl e, s1) \<Rightarrow> (Inl e, s1)
         | (Inr True, s1) \<Rightarrow> (Inl (ProhibitedStatement query), stat_error_increment s1)
         | (Inr False, s1) \<Rightarrow> (Inr (), s1))
      else if pgfw_mode s = PGFW_MODE_PERMISSIVE then
        (case to_be_prohibited uid qid s of
           (Inl e, s1) \<Rightarrow> (Inl e, s1)
         | (Inr True, s1) \<Rightarrow>
             (Inr (), stat_warning_increment (s1\<lparr>notices := notices s1 @ [ProhibitedWarning query]\<rparr>))
         | (Inr False, s1) \<Rightarrow> (Inr (), s1))
      else if pgfw_mode s = PGFW_MODE_LEARNING \<and> lookup_whitelist uid qid s = None then
        learn_statement tokens query qid jstate uid enc s
      else (Inr (), s))"

section \<open>Persisted snapshot\<close>

definition PGSS_FILE_HEADER :: uint32 where
  "PGSS_FILE_HEADER = 0x20140125"

text \<open>
  The loop of \<open>update_firewall_rule_file\<close> (lines 804-821): each entry whose text can be
  fetched is written as the whole \<open>pgssEntry\<close> struct followed by the \<open>len + 1\<close> bytes of
  its text; the two writes of a record are one step of the I/O script.  The flag is
  \<open>False\<close> when a write fails.
\<close>

fun dump_loop ::
  "string \<Rightarrow> pgssEntry list \<Rightarrow> (pgssEntry \<times> string) list \<Rightarrow> fw_state
     \<Rightarrow> (fault + bool) \<times> (pgssEntry \<times> string) list \<times> fw_state" where
  "dump_loop qbuffer [] recs s = (Inr True, recs, s)"
| "dump_loop qbuffer (e # es) recs s =
     (case qtext_fetch (query_offset e) (query_len e) (Some qbuffer) (of_nat (length qbuffer)) of
        Inl f \<Rightarrow> (Inl f, recs, s)
      | Inr None \<Rightarrow> dump_loop qbuffer es recs s
      | Inr (Some p) \<Rightarrow>
          if length qbuffer < unat p + unat (scast (query_len e + 1) :: Size)
          then (Inl OutOfBoundsRead, recs, s)
          else
            (case next_io s of
               (ok, s1) \<Rightarrow>
                 if \<not> ok then (Inr False, recs, s1)
                 else
                   dump_loop qbuffer es
                     (recs @ [(e, take (unat (scast (query_len e + 1) :: Size)) (drop (unat p) qbuffer))])
                     s1))"

text \<open>
  \<open>update_firewall_rule_file\<close> (lines 774-852).  The steps of the I/O script are: creating
  the temporary file and writing the three header words, loading the query texts, each
  record, closing, and renaming.  Every failure leaves the previous file in place.
\<close>

definition update_firewall_rule_file :: "fw_state \<Rightarrow> (error + unit) \<times> fw_state" where
  "update_firewall_rule_file s =
     (case next_io s of
        (opened, s1) \<Rightarrow>
          if \<not> opened then (Inr (), s1)
          else
            (case qtext_load_file s1 of
               (None, s2) \<Rightarrow> (Inr (), s2)
             | (Some qbuffer, s2) \<Rightarrow>
                 (case dump_loop qbuffer (pgss_hash s2) [] s2 of
                    (Inl f, recs, s3) \<Rightarrow> (Inl (Crash f), s3)
                  | (Inr False, recs, s3) \<Rightarrow> (Inr (), s3)
                  | (Inr True, recs, s3) \<Rightarrow>
                      (case next_io s3 of
                         (closed, s4) \<Rightarrow>
                           if \<not> closed then (Inr (), s4)
                           else
                             (case next_io s4 of
                                (renamed, s5) \<Rightarrow>
                                  if \<not> renamed then (Inr (), s5)
                                  else
                                    (Inr (),
                                     s5\<lparr>statements_file :=
                                          Some \<lparr>file_header = PGSS_FILE_HEADER,
                                                file_pgver = pg_major_version s5,
                                                file_num = of_nat (length (pgss_hash s5)),
                                                file_records = recs\<rparr>\<rparr>))))))"

text \<open>\<open>update_firewall_counter_file\<close> (lines 854-894).\<close>

definition update_firewall_counter_file :: "fw_state \<Rightarrow> fw_state" where
  "update_firewall_counter_file s =
     (case next_io s of
        (opened, s1) \<Rightarrow>
          if \<not> opened then s1
          else
            (case next_io s1 of
               (renamed, s2) \<Rightarrow>
                 if \<not> renamed then s2
                 else s2\<lparr>counter_file := Some (warning_count (pgss s2), error_count (pgss s2))\<rparr>))"

text \<open>
  \<open>pgss_shmem_shutdown\<close> (lines 896-927); \<open>pgss_save\<close> is set to true when the module is
  loaded and never changed.  Unlinking the query text file leaves no bytes of it.
\<close>

definition pgss_shmem_shutdown :: "cint \<Rightarrow> fw_state \<Rightarrow> (error + unit) \<times> fw_state" where
  "pgss_shmem_shutdown code s =
     (if code \<noteq> 0 then (Inr (), s)
      else if \<not> loaded s then (Inr (), s)
      else
        (case update_firewall_rule_file s of
           (Inl e, s1) \<Rightarrow> (Inl e, s1)
         | (Inr u, s1) \<Rightarrow> (Inr (), (update_firewall_counter_file s1)\<lparr>qtext_file := []\<rparr>)))"

text \<open>
  \<open>MaxAllocSize\<close> of the server's headers: \<open>repalloc\<close> raises an error for a request
  above it.
\<close>

definition MaxAllocSize :: nat where
  "MaxAllocSize = 0x3fffffff"

text \<open>
  The statements file is the list of its records: each is the struct \<open>temp\<close> with the
  bytes that lie between it and the next struct, or the end of the file.  What is left
  of the file after a struct is then the bytes of its record and the whole of the
  records that follow; a struct takes \<open>sizeof(pgssEntry)\<close> bytes, which is 56 with the
  usual layout of the fields (lines 158-171) on a 64-bit platform.
\<close>

definition sizeof_pgssEntry :: nat where
  "sizeof_pgssEntry = 56"

definition rest_of_file :: "string \<Rightarrow> (pgssEntry \<times> string) list \<Rightarrow> nat" where
  "rest_of_file bytes recs = length bytes + sum_list (map (\<lambda>r. sizeof_pgssEntry + length (snd r)) recs)"

text \<open>
  The loop of \<open>pgss_shmem_startup\<close> over the records of the statements file (lines
  640-682), for the remaining number of iterations and the current \<open>buffer_size\<close>.  The
  flag is \<open>False\<close> when the loop jumps to one of the error labels and \<open>True\<close> when it ends
  or leaves by \<open>break\<close>.  \<open>valid\<close> is the macro \<open>PG_VALID_BE_ENCODING\<close> of the server's
  headers.  The count that \<open>fread\<close> is asked for is \<open>temp.query_len + 1\<close> converted to
  \<open>size_t\<close>, and \<open>fread\<close> copies that many bytes or what is left of the file, whichever
  is less, into the buffer: beyond its end when that is more than the buffer has.  So a
  length below -1, which asks for more than any file holds, overruns the buffer when
  more than \<open>buffer_size\<close> bytes are left, and counts as a failed read otherwise.  The
  assignment of NUL to \<open>buffer[temp.query_len]\<close> writes before the buffer when the length
  is -1.  Of \<open>temp\<close>, the key, the text length, the encoding and the counters reach the
  new entry; \<open>temp.type\<close> is not copied.
\<close>

fun load_loop ::
  "(cint \<Rightarrow> bool) \<Rightarrow> nat \<Rightarrow> cint \<Rightarrow> (pgssEntry \<times> string) list \<Rightarrow> fw_state \<Rightarrow> (error + bool) \<times> fw_state" where
  "load_loop valid 0 buffer_size recs s = (Inr True, s)"
| "load_loop valid (Suc n) buffer_size [] s = (Inr False, s)"
| "load_loop valid (Suc n) buffer_size ((temp, bytes) # recs) s =
     (if \<not> valid (encoding temp) then (Inr False, s)
      else
        let resize = (sint buffer_size \<le> sint (query_len temp));
            new_size = (if resize
                        then (if sint (query_len temp + 1) < sint (buffer_size * 2)
                              then buffer_size * 2 else query_len temp + 1)
                        else buffer_size);
            wanted = unat (scast (query_len temp + 1) :: Size);
            left = rest_of_file bytes recs
        in
          if resize \<and> MaxAllocSize < unat (scast new_size :: Size) then (Inl InvalidAllocRequest, s)
          else if nat (sint new_size) < min wanted left then (Inl (Crash BufferOverrun), s)
          else if length bytes < wanted then (Inr False, s)
          else if query_len temp = - 1 then (Inl (Crash BufferOverrun), s)
          else
            (case next_io s of
               (written, s1) \<Rightarrow>
                 if \<not> written then (Inr False, s1)
                 else
                   let q_offset = extent (pgss s1);
                       s2 = s1\<lparr>qtext_file := qtext_file s1 @ take (unat (query_len temp)) bytes @ [NUL],
                               pgss := (pgss s1)\<lparr>extent := extent (pgss s1) + scast (query_len temp + 1)\<rparr>\<rparr>
                   in
                     (case entry_alloc (key temp) q_offset (query_len temp) (encoding temp) False s2 of
                        (None, s3) \<Rightarrow> (Inr True, s3)
                      | (Some k, s3) \<Rightarrow>
                          load_loop valid n new_size recs
                            (s3\<lparr>pgss_hash :=
                                  update_entry k (\<lambda>e. e\<lparr>counters := counters temp\<rparr>) (pgss_hash s3)\<rparr>))))"

text \<open>
  \<open>pgss_shmem_startup\<close> (lines 522-766).  \<open>found\<close> tells that the shared memory had been
  set up by another process.  Otherwise the shared state and the hash table are new,
  in zero-filled shared memory, the query text file is created empty, and the
  statements file and the counter file are read if they exist.  Opening the query text
  file and opening the statements file are steps of the I/O script.  The buffer for the
  texts starts with 2048 bytes (line 628).
\<close>

definition pgss_shmem_startup :: "bool \<Rightarrow> (cint \<Rightarrow> bool) \<Rightarrow> fw_state \<Rightarrow> (error + unit) \<times> fw_state" where
  "pgss_shmem_startup found valid s0 =
     (if found then (Inr (), s0\<lparr>loaded := True\<rparr>)
      else
        let s = s0\<lparr>loaded := True,
                  pgss := \<lparr>mean_query_len = 1024, extent = 0, n_writers = 0, gc_count = 0,
                           error_count = 0, warning_count = 0\<rparr>,
                  pgss_hash := [],
                  stale_type := 0\<rparr>
        in
          (case next_io s of
             (created, s1) \<Rightarrow>
               if \<not> created then (Inr (), s1)
               else
                 let s2 = s1\<lparr>qtext_file := []\<rparr> in
                 (case statements_file s2 of
                    None \<Rightarrow> (Inr (), s2)
                  | Some f \<Rightarrow>
                      (case next_io s2 of
                         (opened, s3) \<Rightarrow>
                           if \<not> opened then (Inr (), s3)
                           else if file_header f \<noteq> PGSS_FILE_HEADER \<or> file_pgver f \<noteq> pg_major_version s3
                           then (Inr (), s3)
                           else
                             (case load_loop valid (nat (sint (file_num f))) 2048 (file_records f) s3 of
                                (Inl e, s4) \<Rightarrow> (Inl e, s4)
                              | (Inr False, s4) \<Rightarrow> (Inr (), s4)
                              | (Inr True, s4) \<Rightarrow>
                                  (Inr (),
                                   s4\<lparr>pgss := (pgss s4)
                                         \<lparr>warning_count :=
                                            (case counter_file s4 of None \<Rightarrow> 0 | Some (w, e) \<Rightarrow> w),
                                          error_count :=
                                            (case counter_file s4 of None \<Rightarrow> 0 | Some (w, e) \<Rightarrow> e)\<rparr>,
                                       counter_file := None\<rparr>))))))"

section \<open>Administrative operations\<close>

text \<open>
  \<open>pgss_restore\<close> (lines 1856-1926).  \<open>elog(ERROR, ...)\<close> raises, so the \<open>goto done\<close> after
  it is never reached.  The parameters \<open>calls\<close> and \<open>banned\<close> are \<open>n_calls\<close> and \<open>n_banned\<close>.
\<close>

definition pgss_restore ::
  "Oid \<Rightarrow> uint32 \<Rightarrow> string \<Rightarrow> int64 \<Rightarrow> int64 \<Rightarrow> uint32 \<Rightarrow> cint \<Rightarrow> fw_state \<Rightarrow> (error + bool) \<times> fw_state" where
  "pgss_restore uid qid query n_calls n_banned rule_type enc s =
     (let k = \<lparr>userid = uid, queryid = qid, key_type = ucast rule_type\<rparr> in
      case hash_find k (pgss_hash s) of
        Some e \<Rightarrow> (Inr True, s)
      | None \<Rightarrow>
          (case qtext_store query (strlen query) s of
             ((stored, q_offset, gc), s1) \<Rightarrow>
               if \<not> stored then (Inl CouldNotStoreText, s1)
               else
                 (case entry_alloc k q_offset (strlen query) enc False s1 of
                    (None, s2) \<Rightarrow> (Inl CouldNotAllocEntry, s2)
                  | (Some p, s2) \<Rightarrow>
                      let s3 = s2\<lparr>pgss_hash :=
                                   update_entry p
                                     (\<lambda>e. e\<lparr>entry_type := rule_type,
                                             counters := \<lparr>calls = n_calls, banned = n_banned\<rparr>\<rparr>)
                                     (pgss_hash s2)\<rparr>
                      in
                        if need_gc_qtexts s3
                        then (case gc_qtexts s3 of
                                (Inl e, s4) \<Rightarrow> (Inl e, s4)
                              | (Inr u, s4) \<Rightarrow> (Inr True, s4))
                        else (Inr True, s3))))"

text \<open>\<open>rule_typeid\<close> (lines 3578-3593) over the table \<open>rule_type_options\<close> (lines 302-308).\<close>

definition rule_typeid :: "string \<Rightarrow> uint32" where
  "rule_typeid rule_type_name =
     (if rule_type_name = ''dummy'' then PGFW_DUMMY_ENTRY
      else if rule_type_name = ''whitelist'' then PGFW_WHITELIST_ENTRY
      else if rule_type_name = ''blacklist'' then PGFW_BLACKLIST_ENTRY
      else PGFW_DUMMY_ENTRY)"

text \<open>
  What the server's parser, analyzer, hash function and core scanner yield for a query
  string: the number of parse trees, the hash of the jumble, the locations of the
  constants that the query jumble visits, in the order of the visit (each is passed to
  \<open>RecordConstLocation\<close>), and the tokens of the scanner.
\<close>

record analysis =
  n_parsetrees :: nat
  jumble_hash :: uint32
  const_locations :: "int list"
  scan_tokens :: "token list"

text \<open>
  \<open>sql_firewall_queryid\<close> (lines 3825-3878); \<open>want_norm\<close> tells that the pointer
  \<open>normalized_query\<close> is given.
\<close>

definition sql_firewall_queryid :: "string \<Rightarrow> bool \<Rightarrow> analysis \<Rightarrow> error + (uint32 \<times> string option)" where
  "sql_firewall_queryid query_string want_norm a =
     (if n_parsetrees a \<noteq> 1 then Inl NotOneStatement
      else
        let qid = (if jumble_hash a = 0 then 1 else jumble_hash a) in
        if want_norm
        then (case generate_normalized_query (scan_tokens a) (recorded (const_locations a))
                     query_string (sint (strlen query_string)) of
                Inl f \<Rightarrow> Inl (Crash f)
              | Inr (norm_query, n) \<Rightarrow> Inr (qid, Some norm_query))
        else Inr (qid, None))"

text \<open>
  \<open>__add_rule\<close> and \<open>add_rule\<close> (lines 3704-3748).  \<open>uid\<close> is the result of
  \<open>get_role_oid(user, true)\<close>, which is \<open>InvalidOid\<close> for an unknown role.
\<close>

definition inner_add_rule :: "Oid \<Rightarrow> uint32 \<Rightarrow> string \<Rightarrow> uint32 \<Rightarrow> cint \<Rightarrow> fw_state \<Rightarrow> (error + cint) \<times> fw_state" where
  "inner_add_rule uid qid query_string rule_type enc s =
     (case pgss_restore uid qid query_string 0 0 rule_type enc s of
        (Inl e, s1) \<Rightarrow> (Inl e, s1)
      | (Inr ret, s1) \<Rightarrow> (Inr 0, s1))"

definition add_rule :: "Oid \<Rightarrow> string \<Rightarrow> uint32 \<Rightarrow> analysis \<Rightarrow> cint \<Rightarrow> fw_state \<Rightarrow> (error + cint) \<times> fw_state" where
  "add_rule uid query_string rule_type a enc s =
     (case sql_firewall_queryid query_string True a of
        Inl e \<Rightarrow> (Inl e, s)
      | Inr (qid, normalized_query) \<Rightarrow>
          inner_add_rule uid qid
            (case normalized_query of Some q \<Rightarrow> q | None \<Rightarrow> query_string) rule_type enc s)"

text \<open>\<open>sql_firewall_add_rule\<close> (lines 3630-3663); \<open>superuser\<close> is the result of \<open>superuser()\<close>.\<close>

definition sql_firewall_add_rule ::
  "bool \<Rightarrow> Oid \<Rightarrow> string \<Rightarrow> string \<Rightarrow> analysis \<Rightarrow> cint \<Rightarrow> fw_state \<Rightarrow> (error + bool) \<times> fw_state" where
  "sql_firewall_add_rule superuser uid query_string rule_type_name a enc s =
     (let rule_type = rule_typeid rule_type_name in
      if \<not> loaded s then (Inl NotLoaded, s)
      else if \<not> superuser then (Inl MustBeSuperuser, s)
      else if pgfw_mode s \<noteq> PGFW_MODE_DISABLED then (Inl NotDisabledMode, s)
      else if rule_type = PGFW_DUMMY_ENTRY then (Inl BadRuleType, s)
      else
        (case add_rule uid query_string rule_type a enc s of
           (Inl e, s1) \<Rightarrow> (Inl e, s1)
         | (Inr r, s1) \<Rightarrow> (Inr True, s1)))"

text \<open>\<open>entry_delete\<close>, \<open>__del_rule\<close> and \<open>del_rule\<close> (lines 3750-3808).\<close>

definition entry_delete :: "Oid \<Rightarrow> uint32 \<Rightarrow> uint32 \<Rightarrow> fw_state \<Rightarrow> cint \<times> fw_state" where
  "entry_delete uid qid rule_type s =
     (0, s\<lparr>pgss_hash :=
             hash_remove \<lparr>userid = uid, queryid = qid, key_type = ucast rule_type\<rparr> (pgss_hash s)\<rparr>)"

definition inner_del_rule :: "Oid \<Rightarrow> uint32 \<Rightarrow> string \<Rightarrow> uint32 \<Rightarrow> fw_state \<Rightarrow> cint \<times> fw_state" where
  "inner_del_rule uid qid query_string rule_type s = entry_delete uid qid rule_type s"

definition del_rule :: "Oid \<Rightarrow> string \<Rightarrow> uint32 \<Rightarrow> analysis \<Rightarrow> fw_state \<Rightarrow> (error + cint) \<times> fw_state" where
  "del_rule uid query_string rule_type a s =
     (case sql_firewall_queryid query_string False a of
        Inl e \<Rightarrow> (Inl e, s)
      | Inr (qid, normalized_query) \<Rightarrow>
          (case inner_del_rule uid qid query_string rule_type s of
             (ret, s1) \<Rightarrow> (Inr ret, s1)))"

text \<open>\<open>sql_firewall_del_rule\<close> (lines 3675-3702).\<close>

definition sql_firewall_del_rule ::
  "bool \<Rightarrow> Oid \<Rightarrow> string \<Rightarrow> string \<Rightarrow> analysis \<Rightarrow> fw_state \<Rightarrow> (error + bool) \<times> fw_state" where
  "sql_firewall_del_rule superuser uid query_string rule_type_name a s =
     (let rule_type = rule_typeid rule_type_name in
      if \<not> loaded s then (Inl NotLoaded, s)
      else if \<not> superuser then (Inl MustBeSuperuser, s)
      else if pgfw_mode s \<noteq> PGFW_MODE_DISABLED then (Inl NotDisabledMode, s)
      else
        (case del_rule uid query_string rule_type a s of
           (Inl e, s1) \<Rightarrow> (Inl e, s1)
         | (Inr r, s1) \<Rightarrow> (Inr True, s1)))"

text \<open>
  \<open>entry_reset\<close> (lines 2760-2804): every enumerated entry is removed by its key; the
  query text file is emptied when it can be opened.
\<close>

definition entry_reset :: "fw_state \<Rightarrow> fw_state" where
  "entry_reset s =
     (let s1 = s\<lparr>pgss_hash := fold (\<lambda>e tab. hash_remove (key e) tab) (pgss_hash s) (pgss_hash s)\<rparr> in
      case next_io s1 of
        (opened, s2) \<Rightarrow>
          let s3 = (if opened then s2\<lparr>qtext_file := []\<rparr> else s2) in
          record_gc_qtexts (s3\<lparr>pgss := (pgss s3)\<lparr>extent := 0\<rparr>\<rparr>))"

text \<open>\<open>sql_firewall_reset\<close> (lines 1421-1443): here the privilege is checked first.\<close>

definition sql_firewall_reset :: "bool \<Rightarrow> fw_state \<Rightarrow> (error + unit) \<times> fw_state" where
  "sql_firewall_reset superuser s =
     (if \<not> superuser then (Inl MustBeSuperuser, s)
      else if pgfw_mode s \<noteq> PGFW_MODE_DISABLED then (Inl NotDisabledMode, s)
      else if \<not> loaded s then (Inl NotLoaded, s)
      else update_firewall_rule_file (entry_reset s))"

subsection \<open>Export\<close>

text \<open>
  One line of the exported file: the fields that \<open>fprintf\<close> formats, with the query
  text already quoted.
\<close>

record csv_row =
  row_userid :: Oid
  row_queryid :: uint32
  row_text :: string
  row_calls :: int64
  row_banned :: int64
  row_type :: uint32

definition quote_text :: "string \<Rightarrow> string" where
  "quote_text qstr =
     (let need_quote = (CHR 0x0A \<in> set qstr \<or> CHR 0x0D \<in> set qstr \<or> CHR '','' \<in> set qstr
                        \<or> CHR 0x22 \<in> set qstr);
          body = concat (map (\<lambda>c. if c = CHR 0x22 then [CHR 0x22, c] else [c]) qstr)
      in if need_quote then [CHR 0x22] @ body @ [CHR 0x22] else body)"

text \<open>
  The loop of \<open>sql_firewall_export_rule\<close> (lines 1779-1839).  The pointer \<open>qstr\<close> returned
  by \<open>qtext_fetch\<close> is passed to \<open>strchr\<close> (line 1808) whether it is NULL or not; the
  test \<open>if (qstr)\<close> of line 1798 only guards the encoding conversion, whose result is
  not used.  Reading the string at a pointer outside the buffer is a fault.
\<close>

fun export_loop :: "string option \<Rightarrow> Size \<Rightarrow> pgssEntry list \<Rightarrow> fault + csv_row list" where
  "export_loop qbuffer qbuffer_size [] = Inr []"
| "export_loop qbuffer qbuffer_size (e # es) =
     (case qtext_fetch (query_offset e) (query_len e) qbuffer qbuffer_size of
        Inl f \<Rightarrow> Inl f
      | Inr None \<Rightarrow> Inl NullPointerDereference
      | Inr (Some p) \<Rightarrow>
          (case qbuffer of
             None \<Rightarrow> Inl NullPointerDereference
           | Some buf \<Rightarrow>
               if length buf \<le> unat p then Inl OutOfBoundsRead
               else
                 (case export_loop qbuffer qbuffer_size es of
                    Inl f \<Rightarrow> Inl f
                  | Inr rows \<Rightarrow>
                      Inr (\<lparr>row_userid = userid (key e), row_queryid = queryid (key e),
                            row_text = quote_text (c_string_at buf (unat p)),
                            row_calls = calls (counters e), row_banned = banned (counters e),
                            row_type = entry_type e\<rparr> # rows))))"

text \<open>
  \<open>sql_firewall_export_rule\<close> (lines 1737-1850).  Loading the query texts, opening the
  rule file and closing it are steps of the I/O script.  The result holds the lines
  written to the rule file.
\<close>

definition sql_firewall_export_rule :: "bool \<Rightarrow> fw_state \<Rightarrow> (error + csv_row list) \<times> fw_state" where
  "sql_firewall_export_rule superuser s =
     (if \<not> loaded s then (Inl NotLoaded, s)
      else if \<not> superuser then (Inl MustBeSuperuser, s)
      else if pgfw_mode s \<noteq> PGFW_MODE_DISABLED then (Inl NotDisabledMode, s)
      else
        (case qtext_load_file s of
           (qbuffer, s1) \<Rightarrow>
             (case next_io s1 of
                (opened, s2) \<Rightarrow>
                  if \<not> opened then (Inl FileError, s2)
                  else
                    (case export_loop qbuffer
                            (case qbuffer of None \<Rightarrow> 0 | Some buf \<Rightarrow> of_nat (length buf))
                            (pgss_hash s2) of
                       Inl f \<Rightarrow> (Inl (Crash f), s2)
                     | Inr rows \<Rightarrow>
                         (case next_io s2 of
                            (closed, s3) \<Rightarrow>
                              if \<not> closed then (Inl FileError, s3) else (Inr rows, s3))))))"

subsection \<open>Import\<close>

text \<open>
  A complete record of the imported file after \<open>parse_csv_values\<close>, \<open>atoi\<close> and \<open>atol\<close>:
  the user, the query identifier (\<open>None\<close> when the field is blank), the query text with
  what the server's parser yields for it, the two counters and the first character of
  the rule kind.
\<close>

record csv_record =
  csv_userid :: Oid
  csv_queryid :: "uint32 option"
  csv_query :: string
  csv_analysis :: analysis
  csv_calls :: int64
  csv_banned :: int64
  csv_type :: "8 word"

text \<open>
  The loop of \<open>sql_firewall_import_rule\<close> (lines 2130-2205) over the complete records,
  with the result of the last \<open>pgss_restore\<close>.  The \<open>char\<close> of the rule kind is passed
  for a \<open>uint32\<close> parameter.
\<close>

fun import_loop :: "csv_record list \<Rightarrow> bool \<Rightarrow> cint \<Rightarrow> fw_state \<Rightarrow> (error + bool) \<times> fw_state" where
  "import_loop [] ret enc s = (Inr ret, s)"
| "import_loop (r # rs) ret enc s =
     (case (case csv_queryid r of
              None \<Rightarrow> sql_firewall_queryid (csv_query r) True (csv_analysis r)
            | Some qid \<Rightarrow> Inr (qid, None)) of
        Inl e \<Rightarrow> (Inl e, s)
      | Inr (qid, normalized_query) \<Rightarrow>
          (case pgss_restore (csv_userid r) qid
                  (case normalized_query of Some q \<Rightarrow> q | None \<Rightarrow> csv_query r)
                  (csv_calls r) (csv_banned r) (scast (csv_type r)) enc s of
             (Inl e, s1) \<Rightarrow> (Inl e, s1)
           | (Inr ret1, s1) \<Rightarrow> import_loop rs ret1 enc s1))"

text \<open>
  \<open>sql_firewall_import_rule\<close> (lines 2071-2221).  \<open>stat\<close> with the test for a regular file,
  opening the rule file and closing it are steps of the I/O script.
\<close>

definition sql_firewall_import_rule ::
  "bool \<Rightarrow> csv_record list \<Rightarrow> cint \<Rightarrow> fw_state \<Rightarrow> (error + bool) \<times> fw_state" where
  "sql_firewall_import_rule superuser records enc s =
     (if \<not> loaded s then (Inl NotLoaded, s)
      else if \<not> superuser then (Inl MustBeSuperuser, s)
      else if pgfw_mode s \<noteq> PGFW_MODE_DISABLED then (Inl NotDisabledMode, s)
      else
        (case next_io s of
           (regular, s1) \<Rightarrow>
             if \<not> regular then (Inl FileError, s1)
             else
               (case next_io s1 of
                  (opened, s2) \<Rightarrow>
                    if \<not> opened then (Inl FileError, s2)
                    else
                      (case import_loop records False enc s2 of
                         (Inl e, s3) \<Rightarrow> (Inl e, s3)
                       | (Inr ret, s3) \<Rightarrow>
                           (case next_io s3 of
                              (closed, s4) \<Rightarrow>
                                if \<not> closed then (Inl FileError, s4)
                                else
                                  (case update_firewall_rule_file s4 of
                                     (Inl e, s5) \<Rightarrow> (Inl e, s5)
                                   | (Inr u, s5) \<Rightarrow> (Inr ret, s5)))))))"

section \<open>The hooks of statement execution\<close>

text \<open>
  What a backend process adds to the shared state: its \<open>nested_level\<close> (line 226), and
  the statements that the server has run for it, in order.  The server's own
  \<open>standard_ExecutorRun\<close> and \<open>standard_ProcessUtility\<close> are represented by this trace:
  running a statement appends its text.  No other module has installed hooks before
  this one, so the \<open>prev_\<close> pointers are NULL.
\<close>

record backend =
  shared :: fw_state
  nested_level :: cint
  executed :: "string list"

text \<open>
  \<open>pgss_enabled\<close> (lines 320-322); \<open>pgss_track\<close> is set to \<open>PGSS_TRACK_TOP\<close> when the
  module is loaded (line 439) and never changed.
\<close>

definition pgss_enabled :: "backend \<Rightarrow> bool" where
  "pgss_enabled b \<longleftrightarrow> nested_level b = 0"

text \<open>The fields of the server's \<open>Query\<close> and \<open>QueryDesc\<close> that the hooks look at.\<close>

record Query =
  queryId :: uint32
  utilityStmt :: bool

record QueryDesc =
  sourceText :: string
  plannedstmt_queryId :: uint32
  totaltime :: bool

text \<open>
  \<open>pgss_post_parse_analyze\<close> (lines 932-998), for the query string \<open>p_sourcetext\<close> of the
  parse state.  The result is the \<open>Query\<close> node with its \<open>queryId\<close> set.  \<open>pgss_store\<close> is
  called here only when the jumble has recorded at least one constant location.
\<close>

definition pgss_post_parse_analyze ::
  "analysis \<Rightarrow> string \<Rightarrow> Query \<Rightarrow> Oid \<Rightarrow> cint \<Rightarrow> backend \<Rightarrow> (error + Query) \<times> backend" where
  "pgss_post_parse_analyze a p_sourcetext query uid enc b =
     (if queryId query \<noteq> 0 then (Inr query, b)
      else if \<not> loaded (shared b) then (Inr query, b)
      else if utilityStmt query then (Inr (query\<lparr>queryId := 0\<rparr>), b)
      else
        let clocations = recorded (const_locations a);
            qid = (if jumble_hash a = 0 then 1 else jumble_hash a)
        in
          if 0 < length clocations
          then (case pgss_store (scan_tokens a) p_sourcetext qid (Some clocations) uid enc (shared b) of
                  (Inl e, s1) \<Rightarrow> (Inl e, b\<lparr>shared := s1\<rparr>)
                | (Inr u, s1) \<Rightarrow> (Inr (query\<lparr>queryId := qid\<rparr>), b\<lparr>shared := s1\<rparr>))
          else (Inr (query\<lparr>queryId := qid\<rparr>), b))"

text \<open>
  The executor hooks (lines 1003-1111).  \<open>pgss_ExecutorStart\<close> allocates \<open>totaltime\<close>;
  \<open>pgss_ExecutorRun\<close> runs the statement one nesting level deeper;
  \<open>pgss_ExecutorFinish\<close> only tracks the nesting level; \<open>pgss_ExecutorEnd\<close> calls
  \<open>pgss_store\<close> with a NULL \<open>jstate\<close>.
\<close>

definition pgss_ExecutorStart :: "QueryDesc \<Rightarrow> backend \<Rightarrow> QueryDesc \<times> backend" where
  "pgss_ExecutorStart queryDesc b =
     (if pgss_enabled b \<and> plannedstmt_queryId queryDesc \<noteq> 0
      then (if \<not> totaltime queryDesc then (queryDesc\<lparr>totaltime := True\<rparr>, b) else (queryDesc, b))
      else (queryDesc, b))"

definition pgss_ExecutorRun :: "QueryDesc \<Rightarrow> backend \<Rightarrow> backend" where
  "pgss_ExecutorRun queryDesc b =
     (let b1 = b\<lparr>nested_level := nested_level b + 1\<rparr>;
          b2 = b1\<lparr>executed := executed b1 @ [sourceText queryDesc]\<rparr>
      in b2\<lparr>nested_level := nested_level b2 - 1\<rparr>)"

definition pgss_ExecutorFinish :: "QueryDesc \<Rightarrow> backend \<Rightarrow> backend" where
  "pgss_ExecutorFinish queryDesc b =
     (let b1 = b\<lparr>nested_level := nested_level b + 1\<rparr>
      in b1\<lparr>nested_level := nested_level b1 - 1\<rparr>)"

definition pgss_ExecutorEnd ::
  "token list \<Rightarrow> QueryDesc \<Rightarrow> Oid \<Rightarrow> cint \<Rightarrow> backend \<Rightarrow> (error + unit) \<times> backend" where
  "pgss_ExecutorEnd tokens queryDesc uid enc b =
     (if plannedstmt_queryId queryDesc \<noteq> 0 \<and> totaltime queryDesc \<and> pgss_enabled b
      then (case pgss_store tokens (sourceText queryDesc) (plannedstmt_queryId queryDesc) None uid enc
                   (shared b) of
              (r, s1) \<Rightarrow> (r, b\<lparr>shared := s1\<rparr>))
      else (Inr (), b))"

text \<open>
  \<open>pgss_ProcessUtility\<close> (lines 1114-1231).  The statement is run first, one nesting
  level deeper, and \<open>pgss_store\<close> is called afterwards with the hash of the query string
  (\<open>pgss_hash_string\<close>, lines 1268-1273, over the server's \<open>hash_any\<close>, a parameter).
\<close>

datatype UtilityNode =
    ExecuteStmt
  | PrepareStmt
  | DeallocateStmt
  | OtherUtilityStmt

definition pgss_ProcessUtility ::
  "(string \<Rightarrow> uint32) \<Rightarrow> token list \<Rightarrow> UtilityNode \<Rightarrow> string \<Rightarrow> Oid \<Rightarrow> cint \<Rightarrow> backend
     \<Rightarrow> (error + unit) \<times> backend" where
  "pgss_ProcessUtility hash_any tokens parsetree queryString uid enc b =
     (if pgss_enabled b \<and> parsetree \<noteq> ExecuteStmt \<and> parsetree \<noteq> PrepareStmt
           \<and> parsetree \<noteq> DeallocateStmt
      then
        let b1 = b\<lparr>nested_level := nested_level b + 1\<rparr>;
            b2 = b1\<lparr>executed := executed b1 @ [queryString]\<rparr>;
            b3 = b2\<lparr>nested_level := nested_level b2 - 1\<rparr>
        in (case pgss_store tokens queryString (hash_any queryString) None uid enc (shared b3) of
              (r, s1) \<Rightarrow> (r, b3\<lparr>shared := s1\<rparr>))
      else (Inr (), b\<lparr>executed := executed b @ [queryString]\<rparr>))"

text \<open>
  The order in which the server calls the hooks for one optimizable statement: parse
  analysis, then the start, the run, the finish and the end of the executor.  The
  \<open>queryId\<close> that parse analysis has set is the one of the planned statement (the
  comment of lines 33-37).  An error raised by a hook abandons the statement.  A
  statement is its text with what the server's parser and scanner yield for it.
\<close>

definition exec_statement :: "string \<times> analysis \<Rightarrow> Oid \<Rightarrow> cint \<Rightarrow> backend \<Rightarrow> (error + unit) \<times> backend" where
  "exec_statement stmt uid enc b =
     (case stmt of
        (query_string, a) \<Rightarrow>
          (case pgss_post_parse_analyze a query_string \<lparr>queryId = 0, utilityStmt = False\<rparr> uid enc b of
             (Inl e, b1) \<Rightarrow> (Inl e, b1)
           | (Inr query, b1) \<Rightarrow>
               (case pgss_ExecutorStart
                       \<lparr>sourceText = query_string, plannedstmt_queryId = queryId query,
                         totaltime = False\<rparr> b1 of
                  (queryDesc, b2) \<Rightarrow>
                    pgss_ExecutorEnd (scan_tokens a) queryDesc uid enc
                      (pgss_ExecutorFinish queryDesc (pgss_ExecutorRun queryDesc b2)))))"

section \<open>Concrete stores\<close>

text \<open>
  A loaded module with an empty rule store: no entries, an empty query text file, room
  for 100 entries, every file operation succeeding.
\<close>

definition fresh_state :: fw_state where
  "fresh_state =
     \<lparr>loaded = True,
      pgss = \<lparr>mean_query_len = 1024, extent = 0, n_writers = 0, gc_count = 0,
               error_count = 0, warning_count = 0\<rparr>,
      pgss_hash = [],
      pgfw_mode = PGFW_MODE_DISABLED,
      pgfw_rule_engine = PGFW_ENGINE_HYBRID,
      pgss_max = 100,
      qtext_file = [],
      io_script = [],
      stale_type = 0,
      notices = [],
      statements_file = None,
      counter_file = None,
      pg_major_version = 904\<rparr>"

text \<open>
  A whitelist rule and a blacklist rule of user 10 for the statement 42, whose text
  \<open>select ?\<close> is stored at the start of the query text file.
\<close>

definition wl_entry :: pgssEntry where
  "wl_entry =
     \<lparr>key = \<lparr>userid = 10, queryid = 42, key_type = 119\<rparr>,
      counters = \<lparr>calls = 0, banned = 0\<rparr>,
      query_offset = 0, query_len = 8, encoding = 6, entry_type = 119\<rparr>"

definition bl_entry :: pgssEntry where
  "bl_entry =
     \<lparr>key = \<lparr>userid = 10, queryid = 42, key_type = 98\<rparr>,
      counters = \<lparr>calls = 0, banned = 0\<rparr>,
      query_offset = 0, query_len = 8, encoding = 6, entry_type = 98\<rparr>"

definition rules_state :: fw_state where
  "rules_state =
     fresh_state\<lparr>pgss_hash := [wl_entry, bl_entry],
                 qtext_file := ''select ?'' @ [NUL],
                 pgss := (pgss fresh_state)\<lparr>extent := 9\<rparr>\<rparr>"

section \<open>Views of the store\<close>

text \<open>
  The part of an entry that makes it a rule: its key, its counters and its rule kind.
  The text reference is the rest; compaction rewrites it.
\<close>

definition rule_of :: "pgssEntry \<Rightarrow> pgssHashKey \<times> Counters \<times> uint32" where
  "rule_of e = (key e, counters e, entry_type e)"

text \<open>
  A text reference whose arithmetic stays in range: the length is below \<open>INT_MAX\<close>, so
  that \<open>query_len + 1\<close> does not overflow, and offset plus length is below \<open>2^64\<close>.
\<close>

definition text_ref_ok :: "pgssEntry \<Rightarrow> bool" where
  "text_ref_ok e \<longleftrightarrow>
     sint (query_len e) < 2147483647 \<and> unat (query_offset e) + nat (sint (query_len e)) < 2 ^ 64"

text \<open>
  The text stored for a learned statement, in the specification's words: the statement
  text, normalized when the evaluation carries constant locations.
\<close>

definition learned_text :: "token list \<Rightarrow> string \<Rightarrow> pgssLocationLen list option \<Rightarrow> string" where
  "learned_text tokens query jstate =
     (case jstate of
        None \<Rightarrow> query
      | Some clocations \<Rightarrow>
          weave (gaps query 0 (constant_spans tokens clocations query))
                (replicate (length (constant_spans tokens clocations query)) ''?''))"

text \<open>
  Constant locations as \<open>pgss_post_parse_analyze\<close> passes them: records written by
  \<open>RecordConstLocation\<close>, whose spans, as the tokens of a scanner resolve them, do not
  overlap.
\<close>

definition locations_ok :: "token list \<Rightarrow> string \<Rightarrow> pgssLocationLen list option \<Rightarrow> bool" where
  "locations_ok tokens query jstate =
     (case jstate of
        None \<Rightarrow> True
      | Some clocations \<Rightarrow>
          scanner_ok (length query) 0 tokens
          \<and> (\<forall>c \<in> set clocations. 0 \<le> location c \<and> loc_length c = - 1)
          \<and> spans_within (length query) 0 (constant_spans tokens clocations query))"

text \<open>
  A store in Learning mode that is full: 100 whitelist rules of user 11, with room for
  100 (the least value that \<open>sql_firewall.max\<close> accepts).
\<close>

definition full_state :: fw_state where
  "full_state =
     fresh_state\<lparr>pgfw_mode := PGFW_MODE_LEARNING,
                 pgss_hash := map (\<lambda>i. wl_entry\<lparr>key := \<lparr>userid = 11, queryid = of_nat i, key_type = 119\<rparr>\<rparr>)
                                  [0..<100],
                 qtext_file := ''select ?'' @ [NUL],
                 pgss := (pgss fresh_state)\<lparr>extent := 9\<rparr>\<rparr>"

text \<open>
  An entry whose \<open>type\<close> field agrees with the rule kind in its key, as \<open>pgss_store\<close>
  (lines 1398-1401) and \<open>pgss_restore\<close> (lines 1875 and 1911) leave it.
\<close>

definition tagged :: "pgssEntry \<Rightarrow> bool" where
  "tagged e \<longleftrightarrow>
     (key_type (key e) = ucast PGFW_WHITELIST_ENTRY \<longrightarrow> entry_type e = PGFW_WHITELIST_ENTRY)
     \<and> (key_type (key e) = ucast PGFW_BLACKLIST_ENTRY \<longrightarrow> entry_type e = PGFW_BLACKLIST_ENTRY)"

text \<open>
  The store with the two rules after a restart of the server: a controlled shutdown
  writes the statements file, the startup reads it into new shared memory, and the mode
  is then set to Enforcing.  The encoding check accepts the encoding 6 of the records.
\<close>

definition restarted_state :: fw_state where
  "restarted_state =
     snd (pgss_shmem_startup False (\<lambda>enc. enc = 6)
            ((snd (pgss_shmem_shutdown 0 rules_state))
               \<lparr>loaded := False, pgfw_mode := PGFW_MODE_ENFORCING\<rparr>))"

text \<open>The tokens of the core scanner for \<open>select 1\<close> and for \<open>select 2\<close>.\<close>

definition select_tokens :: "token list" where
  "select_tokens = [\<lparr>yylloc = 0, tok_end = 6\<rparr>, \<lparr>yylloc = 7, tok_end = 8\<rparr>]"

text \<open>
  A query with constants of both signs, and the tokens of the core scanner for it:
  \<open>select\<close>, \<open>1\<close>, \<open>+\<close>, \<open>-\<close>, \<open>2\<close>, \<open>from\<close> and \<open>t\<close>.
\<close>

definition example_query :: string where
  "example_query = ''select 1 + -2 from t''"

definition example_tokens :: "token list" where
  "example_tokens =
     [\<lparr>yylloc = 0, tok_end = 6\<rparr>, \<lparr>yylloc = 7, tok_end = 8\<rparr>, \<lparr>yylloc = 9, tok_end = 10\<rparr>,
      \<lparr>yylloc = 11, tok_end = 12\<rparr>, \<lparr>yylloc = 12, tok_end = 13\<rparr>, \<lparr>yylloc = 14, tok_end = 18\<rparr>,
      \<lparr>yylloc = 19, tok_end = 20\<rparr>]"

text \<open>
  A backend of a server in Enforcing mode with the Hybrid engine and an empty rule
  store, so that every statement is prohibited; nothing has run yet.
\<close>

definition enforcing_backend :: backend where
  "enforcing_backend =
     \<lparr>shared = fresh_state\<lparr>pgfw_mode := PGFW_MODE_ENFORCING\<rparr>, nested_level = 0, executed = []\<rparr>"

text \<open>
  Three statements of fingerprint 42 with what the server yields for them: one without
  constants, one with the constant \<open>1\<close> at position 7, and the tokens of a utility
  statement.
\<close>

definition select_star :: "string \<times> analysis" where
  "select_star =
     (''select * from t'',
      \<lparr>n_parsetrees = 1, jumble_hash = 42, const_locations = [],
        scan_tokens = [\<lparr>yylloc = 0, tok_end = 6\<rparr>, \<lparr>yylloc = 7, tok_end = 8\<rparr>,
                       \<lparr>yylloc = 9, tok_end = 13\<rparr>, \<lparr>yylloc = 14, tok_end = 15\<rparr>]\<rparr>)"

definition select_one :: "string \<times> analysis" where
  "select_one =
     (''select 1'',
      \<lparr>n_parsetrees = 1, jumble_hash = 42, const_locations = [7], scan_tokens = select_tokens\<rparr>)"

definition drop_tokens :: "token list" where
  "drop_tokens = [\<lparr>yylloc = 0, tok_end = 4\<rparr>, \<lparr>yylloc = 5, tok_end = 10\<rparr>, \<lparr>yylloc = 11, tok_end = 12\<rparr>]"

section \<open>Properties of the normalized query text\<close>

lemma spans_within_le: "spans_within n pos spans \<Longrightarrow> pos \<le> n"
  by (induction n pos spans rule: spans_within.induct) auto

lemma weave_toks:
  "spans_within (length text) pos spans \<Longrightarrow> weave (gaps text pos spans) (toks text spans) = drop pos text"
proof (induction "length text" pos spans rule: spans_within.induct)
  case (1 pos)
  then show ?case by (simp add: toks_def)
next
  case (2 pos off len spans)
  then have le: "pos \<le> off" and rest: "spans_within (length text) (off + len) spans"
    by simp_all
  have IH: "weave (gaps text (off + len) spans) (toks text spans) = drop (off + len) text"
    using 2 rest by simp
  have "take (off - pos) (drop pos text) @ take len (drop off text) @ drop (off + len) text
        = take (off - pos) (drop pos text) @ drop off text"
    by (metis add.commute append_take_drop_id drop_drop)
  also have "\<dots> = drop pos text"
    using le by (metis append_take_drop_id drop_drop le_add_diff_inverse2)
  finally show ?case using IH by (simp add: toks_def)
qed

lemma weave_placeholders_length:
  "spans_within (length text) pos spans \<Longrightarrow> \<forall>(off, len) \<in> set spans. 1 \<le> len \<Longrightarrow>
   length (weave (gaps text pos spans) (replicate (length spans) ''?'')) + pos \<le> length text"
proof (induction "length text" pos spans rule: spans_within.induct)
  case (1 pos)
  then show ?case by simp
next
  case (2 pos off len spans)
  then have le: "pos \<le> off" and rest: "spans_within (length text) (off + len) spans"
    and len: "1 \<le> len" by simp_all
  have IH: "length (weave (gaps text (off + len) spans) (replicate (length spans) ''?'')) + (off + len) \<le> length text"
    using 2 rest by simp
  have "off + len \<le> length text" using rest by (rule spans_within_le)
  then show ?case using IH le len by simp
qed


lemma resolved_Cons:
  "resolved (c # cs) =
     (if 0 \<le> loc_length c then (nat (location c), nat (loc_length c)) # resolved cs else resolved cs)"
  by (simp add: resolved_def)

lemma norm_loop_weave:
  assumes "\<forall>c \<in> set cs. 0 \<le> location c"
    and "spans_within (length query) (nat pos) (resolved cs)"
    and "pos = last_off + last_tok_len" and "0 \<le> pos"
  shows "\<exists>norm' q'. norm_loop query cs pos last_off last_tok_len norm = Inr (norm', q')
           \<and> 0 \<le> q' \<and> q' \<le> int (length query)
           \<and> norm' @ drop (nat q') query =
               norm @ weave (gaps query (nat pos) (resolved cs)) (replicate (length (resolved cs)) ''?'')"
  using assms
proof (induction cs arbitrary: pos last_off last_tok_len norm)
  case Nil
  then show ?case using spans_within_le [of "length query" "nat pos" "[]"]
    by (simp add: resolved_def)
next
  case (Cons c cs)
  show ?case
  proof (cases "loc_length c < 0")
    case True
    then have "resolved (c # cs) = resolved cs" by (simp add: resolved_Cons)
    with Cons.prems Cons.IH [of pos last_off last_tok_len norm] True show ?thesis
      by simp
  next
    case False
    define off where "off = location c"
    define tl where "tl = loc_length c"
    have tl: "0 \<le> tl" and off: "0 \<le> off" using False Cons.prems(1) by (simp_all add: tl_def off_def)
    have res: "resolved (c # cs) = (nat off, nat tl) # resolved cs"
      using False by (simp add: resolved_Cons off_def tl_def)
    from Cons.prems(2) res have le: "nat pos \<le> nat off"
      and rest: "spans_within (length query) (nat off + nat tl) (resolved cs)" by simp_all
    have pos_le: "pos \<le> off" using le off Cons.prems(4) by linarith
    have end_le: "nat off + nat tl \<le> length query" using rest by (rule spans_within_le)
    have nat_sum: "nat (off + tl) = nat off + nat tl" using off tl by (simp add: nat_add_distrib)
    have IH: "\<exists>norm' q'. norm_loop query cs (off + tl) off tl
                 (norm @ take (nat (off - pos)) (drop (nat pos) query) @ ''?'') = Inr (norm', q')
           \<and> 0 \<le> q' \<and> q' \<le> int (length query)
           \<and> norm' @ drop (nat q') query =
               (norm @ take (nat (off - pos)) (drop (nat pos) query) @ ''?'')
                @ weave (gaps query (nat (off + tl)) (resolved cs)) (replicate (length (resolved cs)) ''?'')"
      using Cons.prems(1) rest off tl by (intro Cons.IH) (simp_all add: nat_sum)
    have step: "norm_loop query (c # cs) pos last_off last_tok_len norm =
          norm_loop query cs (off + tl) off tl
            (norm @ take (nat (off - pos)) (drop (nat pos) query) @ ''?'')"
    proof -
      have a: "off - last_off - last_tok_len = off - pos"
        using Cons.prems(3) by simp
      have b: "\<not> off - pos < 0" using pos_le by simp
      have c: "\<not> (pos < 0 \<or> int (length query) < pos + (off - pos))"
        using Cons.prems(4) end_le off by simp
      have d: "\<not> tl < 0" using tl by simp
      show ?thesis
        apply (subst norm_loop.simps)
        apply (simp only: Let_def off_def [symmetric] tl_def [symmetric] a)
        using b c d apply simp
        done
    qed
    have diff: "nat (off - pos) = nat off - nat pos" using pos_le Cons.prems(4) by (simp add: nat_diff_distrib)
    show ?thesis
      using IH unfolding step res by (simp add: nat_sum diff)
  qed
qed

lemma scanbuf_strlen:
  assumes nul: "NUL \<notin> set query" and le: "p \<le> tok_end t" and within: "tok_end t \<le> length query"
  shows "length (c_string_at (scanbuf query t) p) = tok_end t - p"
proof -
  define e where "e = tok_end t"
  have "(query @ [NUL])[e := NUL] = take e (query @ [NUL]) @ NUL # drop (Suc e) (query @ [NUL])"
    using within by (intro upd_conv_take_nth_drop) (simp add: e_def)
  also have "take e (query @ [NUL]) = take e query" using within by (simp add: e_def)
  finally have buf: "scanbuf query t = take e query @ NUL # drop (Suc e) (query @ [NUL])"
    by (simp add: scanbuf_def e_def)
  have "drop p (scanbuf query t) = drop p (take e query) @ NUL # drop (Suc e) (query @ [NUL])"
    unfolding buf using le within by (simp add: e_def)
  moreover have "\<forall>c \<in> set (drop p (take e query)). c \<noteq> NUL"
    using nul by (metis in_set_dropD in_set_takeD)
  ultimately have "c_string_at (scanbuf query t) p = drop p (take e query)"
    by (simp add: c_string_at_def takeWhile_tail)
  then show ?thesis using within by (simp add: e_def)
qed

lemma token_strlen_eq:
  assumes "NUL \<notin> set query" and "0 \<le> loc" and "loc \<le> int (tok_end t)" and "tok_end t \<le> length query"
  shows "token_strlen query t loc = int (tok_end t) - loc"
  using scanbuf_strlen [OF assms(1), of "nat loc" t] assms by (simp add: token_strlen_def)

lemma scanner_ok_mono: "scanner_ok n pos tokens \<Longrightarrow> pos' \<le> pos \<Longrightarrow> scanner_ok n pos' tokens"
  by (cases tokens) auto

lemma lex_constant_ok:
  assumes "NUL \<notin> set query" and "scanner_ok (length query) pos tokens" and "0 \<le> loc"
  shows "\<exists>r rest. lex_constant query loc tokens = Inr (r, rest)
           \<and> (\<forall>m. r = Some m \<longrightarrow> 1 \<le> m \<and> loc + m \<le> int (length query)
                     \<and> scanner_ok (length query) (loc + m) rest)"
  using assms(2)
proof (induction tokens arbitrary: pos)
  case Nil
  then show ?case by simp
next
  case (Cons t ts)
  from Cons.prems have t: "pos \<le> yylloc t" "yylloc t < int (tok_end t)" "tok_end t \<le> length query"
    and rest: "scanner_ok (length query) (int (tok_end t)) ts" by simp_all
  show ?case
  proof (cases "loc \<le> yylloc t")
    case False
    then show ?thesis using Cons.IH [OF rest] by simp
  next
    case True
    have inb: "\<not> int (length query) < loc" using True t by linarith
    show ?thesis
    proof (cases "(query @ [NUL]) ! nat loc = CHR ''-''")
      case False
      have "token_strlen query t loc = int (tok_end t) - loc"
        using assms(1,3) True t by (intro token_strlen_eq) simp_all
      then show ?thesis using True inb False t rest by simp
    next
      case minus: True
      show ?thesis
      proof (cases ts)
        case Nil
        then show ?thesis using True inb minus by simp
      next
        case (Cons t' ts')
        from rest Cons have t': "int (tok_end t) \<le> yylloc t'" "yylloc t' < int (tok_end t')"
          "tok_end t' \<le> length query" and rest': "scanner_ok (length query) (int (tok_end t')) ts'"
          by simp_all
        have "token_strlen query t' loc = int (tok_end t') - loc"
          using assms(1,3) True t t' by (intro token_strlen_eq) simp_all
        then show ?thesis using True inb minus Cons t t' rest' by simp
      qed
    qed
  qed
qed

lemma fill_loop_ok:
  assumes "NUL \<notin> set query" and "scanner_ok (length query) pos tokens" and "- 1 \<le> last_loc"
  shows "\<exists>filled. fill_loop query cs last_loc tokens = Inr filled
           \<and> (\<forall>c' \<in> set filled. c' \<in> set cs
                  \<or> (\<exists>c \<in> set cs. \<exists>m. c' = c\<lparr>loc_length := m\<rparr> \<and> 0 \<le> location c \<and> 1 \<le> m))"
  using assms(2,3)
proof (induction cs arbitrary: pos last_loc tokens)
  case Nil
  then show ?case by simp
next
  case (Cons c cs)
  show ?case
  proof (cases "location c \<le> last_loc")
    case True
    from Cons.IH [OF Cons.prems] obtain filled where
      f: "fill_loop query cs last_loc tokens = Inr filled"
      and p: "\<forall>c' \<in> set filled. c' \<in> set cs
                  \<or> (\<exists>c \<in> set cs. \<exists>m. c' = c\<lparr>loc_length := m\<rparr> \<and> 0 \<le> location c \<and> 1 \<le> m)"
      by blast
    have "fill_loop query (c # cs) last_loc tokens = Inr (c # filled)" using True f by simp
    then show ?thesis using p by auto
  next
    case False
    then have loc: "0 \<le> location c" using Cons.prems(2) by simp
    from lex_constant_ok [OF assms(1) Cons.prems(1) loc] obtain r rest where
      lx: "lex_constant query (location c) tokens = Inr (r, rest)"
      and pr: "\<forall>m. r = Some m \<longrightarrow> 1 \<le> m \<and> location c + m \<le> int (length query)
                     \<and> scanner_ok (length query) (location c + m) rest"
      by blast
    show ?thesis
    proof (cases r)
      case None
      then show ?thesis using False lx by simp
    next
      case (Some m)
      with pr have m: "1 \<le> m" and ok: "scanner_ok (length query) (location c + m) rest" by simp_all
      have "- 1 \<le> location c" using loc by simp
      from Cons.IH [OF ok this] obtain filled where
        f: "fill_loop query cs (location c) rest = Inr filled"
        and p: "\<forall>c' \<in> set filled. c' \<in> set cs
                  \<or> (\<exists>c \<in> set cs. \<exists>m. c' = c\<lparr>loc_length := m\<rparr> \<and> 0 \<le> location c \<and> 1 \<le> m)"
        by blast
      have "fill_loop query (c # cs) last_loc tokens = Inr (c\<lparr>loc_length := m\<rparr> # filled)"
        using False lx Some f by simp
      then show ?thesis using p m loc by auto
    qed
  qed
qed

lemma fill_in_constant_lengths_ok:
  assumes "NUL \<notin> set query" and "scanner_ok (length query) 0 tokens"
    and "\<forall>c \<in> set clocations. 0 \<le> location c \<and> loc_length c = - 1"
  shows "\<exists>filled. fill_in_constant_lengths tokens clocations query = Inr filled
           \<and> (\<forall>c \<in> set filled. 0 \<le> location c \<and> loc_length c \<noteq> 0)"
proof -
  from fill_loop_ok [OF assms(1,2), of "- 1" "sort_key location clocations"]
  obtain filled where f: "fill_loop query (sort_key location clocations) (- 1) tokens = Inr filled"
    and p: "\<forall>c' \<in> set filled. c' \<in> set clocations
              \<or> (\<exists>c \<in> set clocations. \<exists>m. c' = c\<lparr>loc_length := m\<rparr> \<and> 0 \<le> location c \<and> 1 \<le> m)"
    by auto
  have "\<forall>c \<in> set filled. 0 \<le> location c \<and> loc_length c \<noteq> 0"
    using p assms(3) by fastforce
  then show ?thesis using f by (simp add: fill_in_constant_lengths_def)
qed

lemma RecordConstLocation_records:
  assumes "\<forall>c \<in> set acc. 0 \<le> location c \<and> loc_length c = - 1"
  shows "\<forall>c \<in> set (foldl RecordConstLocation acc locs). 0 \<le> location c \<and> loc_length c = - 1"
  using assms
proof (induction locs arbitrary: acc)
  case Nil
  then show ?case by simp
next
  case (Cons a locs)
  have "\<forall>c \<in> set (RecordConstLocation acc a). 0 \<le> location c \<and> loc_length c = - 1"
    using Cons.prems by (simp add: RecordConstLocation_def)
  from Cons.IH [OF this] show ?case by simp
qed

lemma recorded_records:
  "\<forall>c \<in> set (recorded locs). 0 \<le> location c \<and> loc_length c = - 1"
  using RecordConstLocation_records [of "[]" locs] by (simp add: recorded_def)

lemma normalized_query_weave:
  assumes nul: "NUL \<notin> set query" and sc: "scanner_ok (length query) 0 tokens"
    and recs: "\<forall>c \<in> set clocations. 0 \<le> location c \<and> loc_length c = - 1"
    and within: "spans_within (length query) 0 (constant_spans tokens clocations query)"
  shows "\<exists>filled out. fill_in_constant_lengths tokens clocations query = Inr filled
           \<and> constant_spans tokens clocations query = resolved filled
           \<and> generate_normalized_query tokens clocations query (int (length query))
               = Inr (out, int (length out))
           \<and> out = weave (gaps query 0 (resolved filled)) (replicate (length (resolved filled)) ''?'')
           \<and> weave (gaps query 0 (resolved filled)) (toks query (resolved filled)) = query
           \<and> (\<forall>(off, len) \<in> set (resolved filled). 1 \<le> len)
           \<and> length out \<le> length query
           \<and> (resolved filled = [] \<longrightarrow> out = query)"
proof -
  from fill_in_constant_lengths_ok [OF nul sc recs] obtain filled where
    f: "fill_in_constant_lengths tokens clocations query = Inr filled"
    and locs: "\<forall>c \<in> set filled. 0 \<le> location c \<and> loc_length c \<noteq> 0" by blast
  have cs: "constant_spans tokens clocations query = resolved filled"
    using f by (simp add: constant_spans_def)
  have w: "spans_within (length query) 0 (resolved filled)" using within cs by simp
  define out where
    "out = weave (gaps query 0 (resolved filled)) (replicate (length (resolved filled)) ''?'')"
  have nonneg: "\<forall>c \<in> set filled. 0 \<le> location c" using locs by simp
  obtain norm' q' where loop: "norm_loop query filled 0 0 0 [] = Inr (norm', q')"
    and q': "0 \<le> q'" "q' \<le> int (length query)"
    and eq: "norm' @ drop (nat q') query = out"
    using norm_loop_weave [OF nonneg, of query 0 0 0 "[]"] w unfolding out_def by auto
  have tail: "take (nat (int (length query) - q')) (drop (nat q') query) = drop (nat q') query"
    using q' by simp
  have bytes: "norm_bytes filled query (int (length query)) = Inr out"
    using loop q' eq by (simp add: norm_bytes_def Let_def tail)
  have pos: "\<forall>(off, len) \<in> set (resolved filled). 1 \<le> len"
    using locs by (auto simp: resolved_def)
  have len: "length out \<le> length query"
    using weave_placeholders_length [OF w pos] by (simp add: out_def)
  have "generate_normalized_query tokens clocations query (int (length query)) = Inr (out, int (length out))"
    using f bytes len by (simp add: generate_normalized_query_def)
  moreover have "weave (gaps query 0 (resolved filled)) (toks query (resolved filled)) = query"
    using weave_toks [OF w] by simp
  moreover have "resolved filled = [] \<longrightarrow> out = query"
    by (simp add: out_def)
  ultimately show ?thesis using f cs len pos out_def by blast
qed

text \<open>
  Claim C7.  Let the query jumble have visited constants at any locations of a query
  text, and let a scanner have cut the text into tokens.  \<open>fill_in_constant_lengths\<close>
  then resolves spans, each of length at least 1, and leaves the other records at
  length -1, which are skipped.  If the resolved spans, which are sorted by location,
  do not overlap and lie within the text, \<open>generate_normalized_query\<close> returns the text
  in which each resolved span is replaced by a single \<open>?\<close> and every byte outside the
  spans is preserved: the text is the pieces between the spans woven with the
  constants, the result is the same pieces woven with placeholders.  The result is
  not longer than the text, and equals the text when no span is resolved.
\<close>

theorem generate_normalized_query_spans:
  assumes "NUL \<notin> set query" and "scanner_ok (length query) 0 tokens"
    and "spans_within (length query) 0 (constant_spans tokens (recorded locs) query)"
  shows "\<exists>filled out. fill_in_constant_lengths tokens (recorded locs) query = Inr filled
           \<and> constant_spans tokens (recorded locs) query = resolved filled
           \<and> generate_normalized_query tokens (recorded locs) query (int (length query))
               = Inr (out, int (length out))
           \<and> out = weave (gaps query 0 (resolved filled)) (replicate (length (resolved filled)) ''?'')
           \<and> weave (gaps query 0 (resolved filled)) (toks query (resolved filled)) = query
           \<and> (\<forall>(off, len) \<in> set (resolved filled). 1 \<le> len)
           \<and> length out \<le> length query
           \<and> (resolved filled = [] \<longrightarrow> out = query)"
  using assms(1,2) recorded_records assms(3) by (rule normalized_query_weave)

text \<open>
  The query \<open>select 1 + -2 from t\<close> with its seven tokens; the jumble has visited the
  negative constant at 11, a constant of unknown location, and the constant at 7
  twice.  The scanner resolves the span of length 1 at 7 and, starting from the minus
  sign, the span of length 2 at 11; the duplicate record stays unresolved.
\<close>

lemma example_fill:
  "fill_in_constant_lengths example_tokens (recorded [11, - 1, 7, 7]) example_query
     = Inr [\<lparr>location = 7, loc_length = 1\<rparr>, \<lparr>location = 7, loc_length = - 1\<rparr>,
            \<lparr>location = 11, loc_length = 2\<rparr>]"
  by (simp add: fill_in_constant_lengths_def recorded_def RecordConstLocation_def example_tokens_def
      example_query_def token_strlen_def scanbuf_def c_string_at_def NUL_def)

text \<open>The theorem at this query.\<close>

theorem generate_normalized_query_spans_witness:
  "generate_normalized_query example_tokens (recorded [11, - 1, 7, 7]) example_query 20
     = Inr (''select ? + ? from t'', 19)"
proof -
  have r: "constant_spans example_tokens (recorded [11, - 1, 7, 7]) example_query = [(7, 1), (11, 2)]"
    by (simp add: constant_spans_def example_fill resolved_def)
  have a: "NUL \<notin> set example_query" by (simp add: example_query_def NUL_def)
  have b: "scanner_ok (length example_query) 0 example_tokens"
    by (simp add: example_query_def example_tokens_def)
  have c: "spans_within (length example_query) 0
             (constant_spans example_tokens (recorded [11, - 1, 7, 7]) example_query)"
    unfolding r by (simp add: example_query_def)
  from generate_normalized_query_spans [OF a b c] obtain filled out where
    f: "fill_in_constant_lengths example_tokens (recorded [11, - 1, 7, 7]) example_query = Inr filled"
    and g: "generate_normalized_query example_tokens (recorded [11, - 1, 7, 7]) example_query
              (int (length example_query)) = Inr (out, int (length out))"
    and o: "out = weave (gaps example_query 0 (resolved filled)) (replicate (length (resolved filled)) ''?'')"
    by blast
  have "filled = [\<lparr>location = 7, loc_length = 1\<rparr>, \<lparr>location = 7, loc_length = - 1\<rparr>,
                  \<lparr>location = 11, loc_length = 2\<rparr>]"
    using f by (simp add: example_fill)
  then have "resolved filled = [(7, 1), (11, 2)]"
    by (simp add: resolved_def)
  then have "out = ''select ? + ? from t''"
    using o by (simp add: example_query_def)
  then show ?thesis using g by (simp add: example_query_def)
qed

text \<open>
  The condition of the theorem holds when the locations are given as the parser gives
  them: each recorded location is the location of a token, and the token after the
  minus sign of a negative constant is not itself recorded.  The spans that the scanner
  resolves are then the tokens at the locations, so they do not overlap.
\<close>

lemma token_aligned_tl: "token_aligned query L (t # ts) \<Longrightarrow> token_aligned query L ts"
  by (cases ts) simp_all

lemma scanner_ok_starts:
  "scanner_ok n pos tokens \<Longrightarrow> \<forall>t \<in> set tokens. pos \<le> yylloc t \<and> int (tok_end t) \<le> int n"
proof (induction tokens arbitrary: pos)
  case Nil
  then show ?case by simp
next
  case (Cons t ts)
  then have "scanner_ok n (int (tok_end t)) ts" and a: "pos \<le> yylloc t" "yylloc t < int (tok_end t)"
    "tok_end t \<le> n" by simp_all
  from Cons.IH [OF this(1)] a show ?case by fastforce
qed

text \<open>The token at a location, found by the inner loop.\<close>

lemma lex_constant_at_token:
  assumes nul: "NUL \<notin> set query" and ok: "scanner_ok (length query) pos tokens"
    and at: "loc \<in> yylloc ` set tokens" and nonneg: "0 \<le> loc"
  shows "\<exists>t post. pos \<le> loc \<and> yylloc t = loc \<and> scanner_ok (length query) (int (tok_end t)) post
           \<and> loc < int (tok_end t) \<and> tok_end t \<le> length query
           \<and> set post \<subseteq> set tokens
           \<and> (\<forall>l \<in> yylloc ` set tokens. loc < l \<longrightarrow> l \<in> yylloc ` set post)
           \<and> (token_aligned query L tokens \<longrightarrow> token_aligned query L (t # post))
           \<and> lex_constant query loc tokens =
               (if (query @ [NUL]) ! nat loc = CHR ''-''
                then (case post of
                        [] \<Rightarrow> Inr (None, [])
                      | t' # post' \<Rightarrow> Inr (Some (int (tok_end t') - loc), post'))
                else Inr (Some (int (tok_end t) - loc), post))"
  using ok at
proof (induction tokens arbitrary: pos)
  case Nil
  then show ?case by simp
next
  case (Cons t ts)
  from Cons.prems(1) have t: "pos \<le> yylloc t" "yylloc t < int (tok_end t)" "tok_end t \<le> length query"
    and rest: "scanner_ok (length query) (int (tok_end t)) ts" by simp_all
  note starts = scanner_ok_starts [OF rest]
  show ?case
  proof (cases "loc \<le> yylloc t")
    case True
    have eq: "yylloc t = loc"
    proof (rule ccontr)
      assume "yylloc t \<noteq> loc"
      then have "loc \<in> yylloc ` set ts" using Cons.prems(2) by auto
      then show False using starts t True \<open>yylloc t \<noteq> loc\<close> by fastforce
    qed
    have inb: "\<not> int (length query) < loc" using eq t by linarith
    have later: "\<forall>l \<in> yylloc ` set (t # ts). loc < l \<longrightarrow> l \<in> yylloc ` set ts"
      using eq by auto
    have direct: "token_strlen query t loc = int (tok_end t) - loc"
      using nul nonneg eq t by (intro token_strlen_eq) simp_all
    have next_tok: "token_strlen query t' loc = int (tok_end t') - loc" if "ts = t' # ts'" for t' ts'
    proof -
      from rest that have "int (tok_end t) \<le> yylloc t'" "yylloc t' < int (tok_end t')"
        "tok_end t' \<le> length query" by simp_all
      then show ?thesis using nul nonneg eq t by (intro token_strlen_eq) simp_all
    qed
    have "lex_constant query loc (t # ts) =
               (if (query @ [NUL]) ! nat loc = CHR ''-''
                then (case ts of
                        [] \<Rightarrow> Inr (None, [])
                      | t' # post' \<Rightarrow> Inr (Some (int (tok_end t') - loc), post'))
                else Inr (Some (int (tok_end t) - loc), ts))"
      using True inb direct next_tok by (simp split: list.splits)
    then show ?thesis using eq t rest later by (intro exI [of _ t] exI [of _ ts]) auto
  next
    case False
    then have at': "loc \<in> yylloc ` set ts" using Cons.prems(2) by auto
    from Cons.IH [OF rest at'] obtain u post where
      u: "int (tok_end t) \<le> loc" "yylloc u = loc" "scanner_ok (length query) (int (tok_end u)) post"
        "set post \<subseteq> set ts"
        "loc < int (tok_end u)" "tok_end u \<le> length query"
        "\<forall>l \<in> yylloc ` set ts. loc < l \<longrightarrow> l \<in> yylloc ` set post"
        "token_aligned query L ts \<longrightarrow> token_aligned query L (u # post)"
      and lx: "lex_constant query loc ts =
               (if (query @ [NUL]) ! nat loc = CHR ''-''
                then (case post of
                        [] \<Rightarrow> Inr (None, [])
                      | t' # post' \<Rightarrow> Inr (Some (int (tok_end t') - loc), post'))
                else Inr (Some (int (tok_end u) - loc), post))"
      by blast
    have "pos \<le> loc" using t u(1) by linarith
    moreover have "\<forall>l \<in> yylloc ` set (t # ts). loc < l \<longrightarrow> l \<in> yylloc ` set post"
      using u(7) False by auto
    moreover have "token_aligned query L (t # ts) \<longrightarrow> token_aligned query L (u # post)"
      using u(8) token_aligned_tl by blast
    moreover have "lex_constant query loc (t # ts) = lex_constant query loc ts" using False by simp
    ultimately show ?thesis using u lx by (intro exI [of _ u] exI [of _ post]) auto
  qed
qed

lemma fill_loop_aligned:
  assumes nul: "NUL \<notin> set query"
    and lens: "\<forall>c \<in> set cs. loc_length c = - 1"
    and sub: "location ` set cs \<subseteq> L"
    and ok: "scanner_ok (length query) pos tokens"
    and pos: "0 \<le> pos" "pos \<le> int (length query)"
    and last: "- 1 \<le> last_loc"
    and inv: "\<forall>c \<in> set cs. last_loc < location c \<longrightarrow> location c \<in> yylloc ` set tokens"
    and al: "token_aligned query L tokens"
  shows "\<exists>filled. fill_loop query cs last_loc tokens = Inr filled
           \<and> spans_within (length query) (nat pos) (resolved filled)"
  using lens sub ok pos last inv al
proof (induction cs arbitrary: pos last_loc tokens)
  case Nil
  then show ?case by (simp add: resolved_def)
next
  case (Cons c cs)
  have lens': "\<forall>c \<in> set cs. loc_length c = - 1" and sub': "location ` set cs \<subseteq> L"
    and cL: "location c \<in> L" and clen: "loc_length c = - 1"
    using Cons.prems(1,2) by auto
  have unresolved: "resolved (c # cs) = []"
    using Cons.prems(1) by (auto simp: resolved_def filter_empty_conv)
  show ?case
  proof (cases "location c \<le> last_loc")
    case True
    have inv': "\<forall>c \<in> set cs. last_loc < location c \<longrightarrow> location c \<in> yylloc ` set tokens"
      using Cons.prems(7) by simp
    from Cons.IH [OF lens' sub' Cons.prems(3,4,5,6) inv' Cons.prems(8)] obtain filled where
      f: "fill_loop query cs last_loc tokens = Inr filled"
      and w: "spans_within (length query) (nat pos) (resolved filled)" by blast
    have "fill_loop query (c # cs) last_loc tokens = Inr (c # filled)" using True f by simp
    moreover have "resolved (c # filled) = resolved filled" using clen by (simp add: resolved_Cons)
    ultimately show ?thesis using w by simp
  next
    case False
    define loc where "loc = location c"
    have gt: "last_loc < loc" and nonneg: "0 \<le> loc"
      using False Cons.prems(6) by (simp_all add: loc_def)
    have at: "loc \<in> yylloc ` set tokens" using Cons.prems(7) gt by (simp add: loc_def)
    from lex_constant_at_token [OF nul Cons.prems(3) at nonneg, of L] Cons.prems(8)
    obtain t post where le: "pos \<le> loc" and t: "yylloc t = loc"
      and okp: "scanner_ok (length query) (int (tok_end t)) post"
      and tl: "loc < int (tok_end t)" "tok_end t \<le> length query"
      and later: "\<forall>l \<in> yylloc ` set tokens. loc < l \<longrightarrow> l \<in> yylloc ` set post"
      and alp: "token_aligned query L (t # post)"
      and lx: "lex_constant query loc tokens =
               (if (query @ [NUL]) ! nat loc = CHR ''-''
                then (case post of
                        [] \<Rightarrow> Inr (None, [])
                      | t' # post' \<Rightarrow> Inr (Some (int (tok_end t') - loc), post'))
                else Inr (Some (int (tok_end t) - loc), post))"
      by blast
    have stay: "spans_within (length query) (nat pos) []" using Cons.prems(4,5) by simp
    have step: "\<exists>filled. fill_loop query (c # cs) last_loc tokens = Inr filled
           \<and> spans_within (length query) (nat pos) (resolved filled)"
      if lxr: "lex_constant query loc tokens = Inr (Some (int (tok_end u) - loc), rest)"
        and oku: "scanner_ok (length query) (int (tok_end u)) rest"
        and u: "loc < int (tok_end u)" "tok_end u \<le> length query"
        and laterr: "\<forall>c \<in> set cs. loc < location c \<longrightarrow> location c \<in> yylloc ` set rest"
        and alr: "token_aligned query L rest"
      for u rest
    proof -
      have p1: "0 \<le> int (tok_end u)" and p2: "int (tok_end u) \<le> int (length query)"
        and p3: "- 1 \<le> loc" using u nonneg by simp_all
      from Cons.IH [OF lens' sub' oku p1 p2 p3 laterr alr] obtain filled where
        f: "fill_loop query cs loc rest = Inr filled"
        and w: "spans_within (length query) (nat (int (tok_end u))) (resolved filled)" by blast
      have "fill_loop query (c # cs) last_loc tokens
              = Inr (c\<lparr>loc_length := int (tok_end u) - loc\<rparr> # filled)"
        using False lxr f by (simp add: loc_def)
      moreover have "resolved (c\<lparr>loc_length := int (tok_end u) - loc\<rparr> # filled)
              = (nat loc, nat (int (tok_end u) - loc)) # resolved filled"
        using u by (simp add: resolved_Cons loc_def)
      moreover have "nat loc + nat (int (tok_end u) - loc) = tok_end u"
        using u nonneg by linarith
      moreover have "nat pos \<le> nat loc" using le Cons.prems(4) by linarith
      ultimately show ?thesis using w by simp
    qed
    have from_inv: "location c' \<in> yylloc ` set post" if "c' \<in> set cs" "loc < location c'" for c'
    proof -
      have "last_loc < location c'" using that gt by linarith
      then have "location c' \<in> yylloc ` set tokens" using Cons.prems(7) that by simp
      then show ?thesis using later that by blast
    qed
    show ?thesis
    proof (cases "(query @ [NUL]) ! nat loc = CHR ''-''")
      case False
      show ?thesis
        using step [of t post] lx False okp tl from_inv token_aligned_tl [OF alp] by simp
    next
      case minus: True
      show ?thesis
      proof (cases post)
        case Nil
        then have "fill_loop query (c # cs) last_loc tokens = Inr (c # cs)"
          using \<open>\<not> location c \<le> last_loc\<close> lx minus by (simp add: loc_def)
        then show ?thesis using unresolved stay by simp
      next
        case (Cons t' post')
        from okp Cons have t': "int (tok_end t) \<le> yylloc t'" "yylloc t' < int (tok_end t')"
          "tok_end t' \<le> length query" and okp': "scanner_ok (length query) (int (tok_end t')) post'"
          by simp_all
        have tend: "loc < int (tok_end t')" using tl(1) t' by linarith
        have notL: "yylloc t' \<notin> L" using alp Cons t cL minus by (simp add: loc_def)
        have laterr: "\<forall>c' \<in> set cs. loc < location c' \<longrightarrow> location c' \<in> yylloc ` set post'"
        proof (intro ballI impI)
          fix c' assume c': "c' \<in> set cs" "loc < location c'"
          then have "location c' \<in> yylloc ` set post" by (rule from_inv)
          moreover have "location c' \<noteq> yylloc t'" using notL sub' c'(1) by auto
          ultimately show "location c' \<in> yylloc ` set post'" using Cons by auto
        qed
        have alr: "token_aligned query L post'"
          using token_aligned_tl [OF token_aligned_tl [OF alp [unfolded Cons]]] .
        show ?thesis
          using step [of t' post'] lx minus Cons okp' t' tend laterr alr by simp
      qed
    qed
  qed
qed

lemma RecordConstLocation_locations:
  "location ` set (foldl RecordConstLocation acc locs) = location ` set acc \<union> {l \<in> set locs. 0 \<le> l}"
proof (induction locs arbitrary: acc)
  case Nil
  show ?case by simp
next
  case (Cons a locs)
  show ?case unfolding foldl_Cons Cons.IH by (auto simp: RecordConstLocation_def)
qed

lemma constant_spans_aligned:
  assumes nul: "NUL \<notin> set query" and ok: "scanner_ok (length query) 0 tokens"
    and at: "\<forall>l \<in> set locs. 0 \<le> l \<longrightarrow> l \<in> yylloc ` set tokens"
    and al: "token_aligned query (set locs) tokens"
  shows "spans_within (length query) 0 (constant_spans tokens (recorded locs) query)"
proof -
  let ?cs = "sort_key location (recorded locs)"
  have locs: "location ` set ?cs = {l \<in> set locs. 0 \<le> l}"
    using RecordConstLocation_locations [of "[]" locs] by (simp add: recorded_def)
  have lens: "\<forall>c \<in> set ?cs. loc_length c = - 1" using recorded_records [of locs] by simp
  have sub: "location ` set ?cs \<subseteq> set locs" using locs by auto
  have inv: "\<forall>c \<in> set ?cs. - 1 < location c \<longrightarrow> location c \<in> yylloc ` set tokens"
    using locs at by blast
  from fill_loop_aligned [OF nul lens sub ok _ _ _ inv al]
  obtain filled where "fill_loop query ?cs (- 1) tokens = Inr filled"
    and "spans_within (length query) (nat 0) (resolved filled)" by auto
  then show ?thesis by (simp add: constant_spans_def fill_in_constant_lengths_def)
qed

lemma normalized_query_token_aligned:
  assumes nul: "NUL \<notin> set query" and ok: "scanner_ok (length query) 0 tokens"
    and at: "\<forall>l \<in> set locs. 0 \<le> l \<longrightarrow> l \<in> yylloc ` set tokens"
    and al: "token_aligned query (set locs) tokens"
  shows "\<exists>filled out. fill_in_constant_lengths tokens (recorded locs) query = Inr filled
           \<and> generate_normalized_query tokens (recorded locs) query (int (length query))
               = Inr (out, int (length out))
           \<and> out = weave (gaps query 0 (resolved filled)) (replicate (length (resolved filled)) ''?'')
           \<and> weave (gaps query 0 (resolved filled)) (toks query (resolved filled)) = query
           \<and> length out \<le> length query"
  using normalized_query_weave [OF nul ok recorded_records constant_spans_aligned [OF nul ok at al]]
  by blast

lemmas normalize_defs =
  generate_normalized_query_def fill_in_constant_lengths_def recorded_def RecordConstLocation_def
  norm_bytes_def token_strlen_def scanbuf_def c_string_at_def select_tokens_def

section \<open>Properties of the bounds-checked fetch\<close>

lemma uint_scast_nonneg:
  assumes "0 \<le> sint (q_len :: cint)"
  shows "uint (scast q_len :: Size) = sint q_len"
proof -
  have lt: "sint q_len < 2 ^ 31" using sint_lt [of q_len] by simp
  have "uint (scast q_len :: Size) = take_bit LENGTH(64) (sint q_len)"
    by (simp only: scast_eq uint_word_of_int_eq)
  then have "uint (scast q_len :: Size) = take_bit 64 (sint q_len)"
    by simp
  also have "\<dots> = sint q_len"
    using assms lt by (intro take_bit_int_eq_self) simp_all
  finally show ?thesis .
qed

lemma unat_scast_nonneg:
  "0 \<le> sint (q_len :: cint) \<Longrightarrow> unat (scast q_len :: Size) = nat (sint q_len)"
  using uint_scast_nonneg [of q_len] by (simp add: unat_eq_nat_uint del: nat_uint_eq)

lemma unat_add_scast:
  assumes "0 \<le> sint (q_len :: cint)" and "unat (q_offset :: Size) + nat (sint q_len) < 2 ^ 64"
  shows "unat (q_offset + scast q_len) = unat q_offset + nat (sint q_len)"
proof -
  have "unat (q_offset + scast q_len) = (unat q_offset + unat (scast q_len :: Size)) mod 2 ^ 64"
    by (simp add: unat_word_ariths)
  then show ?thesis using assms by (simp add: unat_scast_nonneg)
qed

lemma qtext_fetch_no_fault:
  assumes "unat buffer_size \<le> length buf"
  shows "qtext_fetch q_offset q_len (Some buf) buffer_size \<noteq> Inl f"
proof -
  have "q_offset + scast q_len < buffer_size \<Longrightarrow> unat (q_offset + scast q_len) < length buf"
    using assms by (simp add: word_less_nat_alt)
  then show ?thesis
    by (auto simp: qtext_fetch_def not_le)
qed

lemma qtext_fetch_Some:
  assumes "qtext_fetch q_offset q_len (Some buf) buffer_size = Inr (Some p)"
    and "unat buffer_size \<le> length buf"
    and "unat q_offset + nat (sint q_len) < 2 ^ 64"
  shows "p = q_offset \<and> 0 \<le> sint q_len \<and> unat q_offset + nat (sint q_len) < length buf
         \<and> buf ! (unat q_offset + nat (sint q_len)) = NUL"
proof -
  from assms(1) have nonneg: "0 \<le> sint q_len"
    and lt: "q_offset + scast q_len < buffer_size"
    and nul: "buf ! unat (q_offset + scast q_len) = NUL"
    and p: "p = q_offset"
    by (auto simp: qtext_fetch_def not_le split: if_splits)
  have "unat (q_offset + scast q_len) = unat q_offset + nat (sint q_len)"
    using nonneg assms(3) by (rule unat_add_scast)
  moreover have "unat (q_offset + scast q_len) < length buf"
    using lt assms(2) by (simp add: word_less_nat_alt)
  ultimately show ?thesis using nonneg nul p by simp
qed

lemma qtext_fetch_None_iff:
  "qtext_fetch q_offset q_len buffer buffer_size = Inr None \<longleftrightarrow>
     (case buffer of
        None \<Rightarrow> True
      | Some buf \<Rightarrow>
          sint q_len < 0 \<or> buffer_size \<le> q_offset + scast q_len
          \<or> (unat (q_offset + scast q_len) < length buf \<and> buf ! unat (q_offset + scast q_len) \<noteq> NUL))"
  by (auto simp: qtext_fetch_def split: option.splits)

lemma c_string_at_terminated:
  assumes "p + n < length buf" and "buf ! (p + n) = NUL"
  shows "length (c_string_at buf p) \<le> n"
proof -
  have "(drop p buf) ! n = NUL" using assms by simp
  moreover have "n < length (drop p buf)" using assms by simp
  ultimately have "\<not> (\<forall>i \<le> n. (drop p buf) ! i \<noteq> NUL)" by auto
  then show ?thesis
    unfolding c_string_at_def
    by (metis (mono_tags, lifting) \<open>drop p buf ! n = NUL\<close> \<open>n < length (drop p buf)\<close> linorder_not_less nth_length_takeWhile nth_mem order_less_le_trans set_takeWhileD takeWhile_nth)
qed

text \<open>
  What \<open>qtext_fetch\<close> guarantees when the sum of offset and length does not wrap and the
  buffer has the bytes its size promises: no read outside the buffer, and a returned
  pointer is the offset, with the NUL at \<open>offset + length\<close> inside the buffer, so that
  the string at the pointer ends within the buffer.
\<close>

lemma qtext_fetch_in_bounds:
  assumes "qtext_fetch q_offset q_len (Some buf) buffer_size = Inr (Some p)"
    and "unat buffer_size \<le> length buf"
    and "unat q_offset + nat (sint q_len) < 2 ^ 64"
  shows "unat p + length (c_string_at buf (unat p)) < length buf"
proof -
  from qtext_fetch_Some [OF assms]
  have p: "p = q_offset" and lt: "unat q_offset + nat (sint q_len) < length buf"
    and nul: "buf ! (unat q_offset + nat (sint q_len)) = NUL" by simp_all
  have "length (c_string_at buf (unat q_offset)) \<le> nat (sint q_len)"
    using lt nul by (rule c_string_at_terminated)
  then show ?thesis using lt p by simp
qed

text \<open>
  Claim C6 at a failing input.  For the offset \<open>2^64 - 1\<close>, the length 1 and a buffer of
  one NUL byte, the sum of offset and length wraps to 0, which passes both tests of
  \<open>qtext_fetch\<close>: the result is not NULL but the pointer \<open>buffer + (2^64 - 1)\<close>, which
  lies outside the buffer of size 1.
\<close>

theorem qtext_fetch_wrapped_offset:
  "qtext_fetch 18446744073709551615 1 (Some [NUL]) 1 = Inr (Some 18446744073709551615)
   \<and> length [NUL] \<le> unat (18446744073709551615 :: Size)"
  by (simp add: qtext_fetch_def word_le_nat_alt unat_word_ariths)

section \<open>Properties of the rule store\<close>

text \<open>
  Claim C5.  When the store holds at least \<open>sql_firewall.max\<close> entries, \<open>entry_alloc\<close>
  returns NULL and emits the capacity warning, and nothing else changes: no entry is
  created and the existing entries are untouched.  Below capacity it returns the
  entry already stored under the key, leaving the state as it is, or else appends one
  new entry for the key, with zero counters and the given text reference.
\<close>

theorem entry_alloc_capacity:
  "(sint (pgss_max s) \<le> int (length (pgss_hash s)) \<longrightarrow>
      entry_alloc k q_offset q_len enc sticky s = (None, s\<lparr>notices := notices s @ [CapacityWarning]\<rparr>))
   \<and> (int (length (pgss_hash s)) < sint (pgss_max s) \<longrightarrow>
        (case hash_find k (pgss_hash s) of
           Some e \<Rightarrow> entry_alloc k q_offset q_len enc sticky s = (Some k, s) \<and> key e = k \<and> e \<in> set (pgss_hash s)
         | None \<Rightarrow>
             (\<exists>e. entry_alloc k q_offset q_len enc sticky s = (Some k, s\<lparr>pgss_hash := pgss_hash s @ [e]\<rparr>)
                  \<and> key e = k \<and> counters e = \<lparr>calls = 0, banned = 0\<rparr>
                  \<and> query_offset e = q_offset \<and> query_len e = q_len \<and> encoding e = enc)
             \<and> k \<notin> key ` set (pgss_hash s)))"
proof -
  have found: "\<And>e. hash_find k (pgss_hash s) = Some e \<Longrightarrow> key e = k \<and> e \<in> set (pgss_hash s)"
    unfolding hash_find_def by (auto simp: find_Some_iff)
  have absent: "hash_find k (pgss_hash s) = None \<Longrightarrow> k \<notin> key ` set (pgss_hash s)"
    unfolding hash_find_def by (auto simp: find_None_iff)
  show ?thesis
    using found absent by (auto simp: entry_alloc_def split: option.splits)
qed

text \<open>
  The three cases at concrete stores: two rules with room for two, the same two rules
  with room for 100 and a key that is there, and the empty store.
\<close>

theorem entry_alloc_capacity_witness:
  "entry_alloc (key bl_entry) 9 8 6 False (rules_state\<lparr>pgss_max := 2\<rparr>)
     = (None, rules_state\<lparr>pgss_max := 2, notices := [CapacityWarning]\<rparr>)
   \<and> entry_alloc (key bl_entry) 9 8 6 False rules_state = (Some (key bl_entry), rules_state)
   \<and> fst (entry_alloc (key bl_entry) 9 8 6 False fresh_state) = Some (key bl_entry)
   \<and> map key (pgss_hash (snd (entry_alloc (key bl_entry) 9 8 6 False fresh_state))) = [key bl_entry]"
proof -
  have a: "sint (pgss_max (rules_state\<lparr>pgss_max := 2\<rparr>)) \<le> int (length (pgss_hash (rules_state\<lparr>pgss_max := 2\<rparr>)))"
    by (simp add: rules_state_def fresh_state_def)
  have b: "int (length (pgss_hash rules_state)) < sint (pgss_max rules_state)"
    by (simp add: rules_state_def fresh_state_def)
  have c: "hash_find (key bl_entry) (pgss_hash rules_state) = Some bl_entry"
    by (simp add: rules_state_def fresh_state_def hash_find_def wl_entry_def bl_entry_def)
  have d: "int (length (pgss_hash fresh_state)) < sint (pgss_max fresh_state)"
    by (simp add: fresh_state_def)
  have e: "hash_find (key bl_entry) (pgss_hash fresh_state) = None"
    by (simp add: fresh_state_def hash_find_def)
  have 1: "entry_alloc (key bl_entry) 9 8 6 False (rules_state\<lparr>pgss_max := 2\<rparr>)
     = (None, rules_state\<lparr>pgss_max := 2, notices := [CapacityWarning]\<rparr>)"
    using entry_alloc_capacity [of "rules_state\<lparr>pgss_max := 2\<rparr>" "key bl_entry" 9 8 6 False] a
    by (simp add: rules_state_def fresh_state_def)
  have 2: "entry_alloc (key bl_entry) 9 8 6 False rules_state = (Some (key bl_entry), rules_state)"
    using entry_alloc_capacity [of rules_state "key bl_entry" 9 8 6 False] b c by simp
  have 3: "fst (entry_alloc (key bl_entry) 9 8 6 False fresh_state) = Some (key bl_entry)
     \<and> map key (pgss_hash (snd (entry_alloc (key bl_entry) 9 8 6 False fresh_state))) = [key bl_entry]"
    using entry_alloc_capacity [of fresh_state "key bl_entry" 9 8 6 False] d e
    by (auto simp: fresh_state_def)
  show ?thesis using 1 2 3 by simp
qed

section \<open>Properties of the decision engine\<close>

lemma map_key_update_entry:
  "(\<And>e. key (f e) = key e) \<Longrightarrow> map key (update_entry k f tab) = map key tab"
  by (induction tab) (simp_all add: update_entry_def)

lemma key_count_entry: "key (count_entry e) = key e"
  by (simp add: count_entry_def)

lemma collect_entry_statistics_frame:
  "\<exists>tab. collect_entry_statistics p s = s\<lparr>pgss_hash := tab\<rparr> \<and> map key tab = map key (pgss_hash s)"
proof (cases p)
  case None
  then have "collect_entry_statistics p s = s\<lparr>pgss_hash := pgss_hash s\<rparr>"
    by (simp add: collect_entry_statistics_def)
  then show ?thesis by blast
next
  case (Some k)
  then show ?thesis
    by (auto simp: collect_entry_statistics_def map_key_update_entry key_count_entry)
qed

lemma inner_to_be_prohibited_frame:
  assumes "inner_to_be_prohibited wl bl s = (r, s')"
  shows "\<exists>tab. s' = s\<lparr>pgss_hash := tab\<rparr> \<and> map key tab = map key (pgss_hash s)"
proof -
  have same: "\<exists>tab. s = s\<lparr>pgss_hash := tab\<rparr> \<and> map key tab = map key (pgss_hash s)"
    by (rule exI [of _ "pgss_hash s"]) simp
  have "s' = collect_entry_statistics wl s \<or> s' = collect_entry_statistics bl s \<or> s' = s"
    using assms
    by (auto simp: inner_to_be_prohibited_def Let_def split: PGFWEngineType.splits if_splits)
  then show ?thesis
    using collect_entry_statistics_frame [of wl s] collect_entry_statistics_frame [of bl s] same
    by metis
qed

lemma to_be_prohibited_frame:
  assumes "to_be_prohibited uid qid s = (r, s')"
  shows "\<exists>tab. s' = s\<lparr>pgss_hash := tab\<rparr> \<and> map key tab = map key (pgss_hash s)"
  using assms unfolding to_be_prohibited_def Let_def by (rule inner_to_be_prohibited_frame)

text \<open>
  The evaluation of a statement that the rule engine finds prohibited.  In Enforcing
  mode \<open>pgss_store\<close> raises the error that aborts the statement, and the global error
  counter is one more than before.  In Permissive mode it returns normally, so the
  statement goes on, and the global warning counter is one more than before.  In both
  modes the other global counter is unchanged and the store holds the same keys in the
  same order as before: no rule entry is created.
\<close>

lemma pgss_store_prohibited:
  assumes "loaded s" and "to_be_prohibited uid qid s = (Inr True, s1)"
  shows "(pgfw_mode s = PGFW_MODE_ENFORCING \<longrightarrow>
            (\<exists>s'. pgss_store tokens query qid jstate uid enc s = (Inl (ProhibitedStatement query), s')
                \<and> error_count (pgss s') = error_count (pgss s) + 1
                \<and> warning_count (pgss s') = warning_count (pgss s)
                \<and> map key (pgss_hash s') = map key (pgss_hash s)))
       \<and> (pgfw_mode s = PGFW_MODE_PERMISSIVE \<longrightarrow>
            (\<exists>s'. pgss_store tokens query qid jstate uid enc s = (Inr (), s')
                \<and> warning_count (pgss s') = warning_count (pgss s) + 1
                \<and> error_count (pgss s') = error_count (pgss s)
                \<and> map key (pgss_hash s') = map key (pgss_hash s)))"
proof -
  obtain tab where s1: "s1 = s\<lparr>pgss_hash := tab\<rparr>" and keys: "map key tab = map key (pgss_hash s)"
    using to_be_prohibited_frame [OF assms(2)] by blast
  show ?thesis
    using assms keys
    by (simp add: pgss_store_def s1 stat_error_increment_def stat_warning_increment_def)
qed

lemmas lookup_defs =
  to_be_prohibited_def inner_to_be_prohibited_def lookup_blacklist_def lookup_whitelist_def
  lookup_rule_def inner_lookup_rule_def hash_find_def collect_entry_statistics_def
  update_entry_def count_entry_def
  PGFW_WHITELIST_ENTRY_def PGFW_BLACKLIST_ENTRY_def InvalidOid_def

lemmas example_defs = rules_state_def fresh_state_def wl_entry_def bl_entry_def

text \<open>
  The three ways from the hooks to \<open>pgss_store\<close>, in Enforcing mode at the top level,
  for a statement that the rule engine finds prohibited.  A statement for which the
  jumble has recorded no constant is run by the executor before \<open>pgss_ExecutorEnd\<close>
  raises the error; a utility statement is run by \<open>pgss_ProcessUtility\<close> before the
  error; a statement with a recorded constant is refused by \<open>pgss_post_parse_analyze\<close>
  and does not run.
\<close>

lemma exec_statement_without_constants:
  assumes "loaded (shared b)" and "pgfw_mode (shared b) = PGFW_MODE_ENFORCING"
    and "nested_level b = 0" and "const_locations a = []"
    and "to_be_prohibited uid (if jumble_hash a = 0 then 1 else jumble_hash a) (shared b) = (Inr True, s1)"
  shows "\<exists>b'. exec_statement (query_string, a) uid enc b = (Inl (ProhibitedStatement query_string), b')
           \<and> executed b' = executed b @ [query_string]"
proof -
  define qid where "qid = (if jumble_hash a = 0 then 1 else jumble_hash a)"
  have nz: "qid \<noteq> 0" by (simp add: qid_def)
  from pgss_store_prohibited [OF assms(1) assms(5) [folded qid_def], of "scan_tokens a" query_string None enc]
    assms(2)
  obtain s' where st: "pgss_store (scan_tokens a) query_string qid None uid enc (shared b)
                         = (Inl (ProhibitedStatement query_string), s')"
    by blast
  show ?thesis
    using assms(1,3,4) nz st
    by (simp add: exec_statement_def pgss_post_parse_analyze_def pgss_ExecutorStart_def
        pgss_ExecutorRun_def pgss_ExecutorFinish_def pgss_ExecutorEnd_def pgss_enabled_def
        recorded_def Let_def qid_def [symmetric])
qed

lemma process_utility_runs_first:
  assumes "loaded (shared b)" and "pgfw_mode (shared b) = PGFW_MODE_ENFORCING"
    and "nested_level b = 0" and "parsetree = OtherUtilityStmt"
    and "to_be_prohibited uid (hash_any queryString) (shared b) = (Inr True, s1)"
  shows "\<exists>b'. pgss_ProcessUtility hash_any tokens parsetree queryString uid enc b
                 = (Inl (ProhibitedStatement queryString), b')
           \<and> executed b' = executed b @ [queryString]"
proof -
  from pgss_store_prohibited [OF assms(1) assms(5), of tokens queryString None enc] assms(2)
  obtain s' where st: "pgss_store tokens queryString (hash_any queryString) None uid enc (shared b)
                         = (Inl (ProhibitedStatement queryString), s')"
    by blast
  show ?thesis
    using assms(3,4) st
    by (simp add: pgss_ProcessUtility_def pgss_enabled_def Let_def)
qed

lemma exec_statement_with_constants:
  assumes "loaded (shared b)" and "pgfw_mode (shared b) = PGFW_MODE_ENFORCING"
    and "recorded (const_locations a) \<noteq> []"
    and "to_be_prohibited uid (if jumble_hash a = 0 then 1 else jumble_hash a) (shared b) = (Inr True, s1)"
  shows "\<exists>b'. exec_statement (query_string, a) uid enc b = (Inl (ProhibitedStatement query_string), b')
           \<and> executed b' = executed b"
proof -
  define qid where "qid = (if jumble_hash a = 0 then 1 else jumble_hash a)"
  from pgss_store_prohibited [OF assms(1) assms(4) [folded qid_def], of "scan_tokens a" query_string
      "Some (recorded (const_locations a))" enc] assms(2)
  obtain s' where st: "pgss_store (scan_tokens a) query_string qid (Some (recorded (const_locations a)))
                         uid enc (shared b) = (Inl (ProhibitedStatement query_string), s')"
    by blast
  show ?thesis
    using assms(1,3) st
    by (simp add: exec_statement_def pgss_post_parse_analyze_def Let_def qid_def [symmetric])
qed

lemmas hook_defs =
  exec_statement_def pgss_post_parse_analyze_def pgss_ExecutorStart_def pgss_ExecutorRun_def
  pgss_ExecutorFinish_def pgss_ExecutorEnd_def pgss_ProcessUtility_def pgss_enabled_def
  enforcing_backend_def pgss_store_def stat_error_increment_def

text \<open>
  Claim C1 at a failing input.  The server is in Enforcing mode and the store is
  empty, so the Hybrid engine finds every statement prohibited.  User 10 runs
  \<open>select * from t\<close>, a statement without constants: \<open>pgss_post_parse_analyze\<close> does not
  call \<open>pgss_store\<close> for it (line 992), the executor runs it, and only \<open>pgss_ExecutorEnd\<close>
  raises the error, after the statement has run.  A utility statement is likewise run
  by \<open>pgss_ProcessUtility\<close> before \<open>pgss_store\<close> raises the error (line 1213).  Only a
  statement with a constant, such as \<open>select 1\<close>, is refused before it runs.
\<close>

theorem prohibited_statement_runs_before_error:
  "to_be_prohibited 10 42 (shared enforcing_backend) = (Inr True, shared enforcing_backend)
   \<and> fst (exec_statement select_star 10 6 enforcing_backend)
       = Inl (ProhibitedStatement ''select * from t'')
   \<and> executed (snd (exec_statement select_star 10 6 enforcing_backend)) = [''select * from t'']
   \<and> error_count (pgss (shared (snd (exec_statement select_star 10 6 enforcing_backend)))) = 1
   \<and> fst (pgss_ProcessUtility (\<lambda>str. 42) drop_tokens OtherUtilityStmt ''drop table t'' 10 6
             enforcing_backend)
       = Inl (ProhibitedStatement ''drop table t'')
   \<and> executed (snd (pgss_ProcessUtility (\<lambda>str. 42) drop_tokens OtherUtilityStmt ''drop table t'' 10 6
                       enforcing_backend))
       = [''drop table t'']
   \<and> fst (exec_statement select_one 10 6 enforcing_backend) = Inl (ProhibitedStatement ''select 1'')
   \<and> executed (snd (exec_statement select_one 10 6 enforcing_backend)) = []"
  by (simp add: hook_defs lookup_defs fresh_state_def recorded_def RecordConstLocation_def Let_def
      select_star_def select_one_def)

section \<open>Properties of the administrative operations\<close>

lemma hash_find_Some_iff:
  "(\<exists>e. hash_find k tab = Some e) \<longleftrightarrow> k \<in> key ` set tab"
  unfolding hash_find_def by (induction tab) auto

text \<open>
  Claim C10.  When the key (userid, queryid, rule kind) of a rule to restore is in the
  store, \<open>pgss_restore\<close> returns true and the whole state is as before: no entry is
  created, nothing is appended to the query text file, and every entry keeps its
  counters and its text reference.  \<open>__add_rule\<close> and \<open>add_rule\<close>, which go through
  \<open>pgss_restore\<close>, return 0 with the state as before.
\<close>

theorem restore_existing_rule_is_noop:
  assumes "\<lparr>userid = uid, queryid = qid, key_type = ucast rule_type\<rparr> \<in> key ` set (pgss_hash s)"
  shows "pgss_restore uid qid query n_calls n_banned rule_type enc s = (Inr True, s)
       \<and> inner_add_rule uid qid query rule_type enc s = (Inr 0, s)
       \<and> (sql_firewall_queryid query_string True a = Inr (qid, normalized_query) \<longrightarrow>
            add_rule uid query_string rule_type a enc s = (Inr 0, s))"
proof -
  obtain e where "hash_find \<lparr>userid = uid, queryid = qid, key_type = ucast rule_type\<rparr> (pgss_hash s) = Some e"
    using assms hash_find_Some_iff by blast
  then have r: "\<And>q c b. pgss_restore uid qid q c b rule_type enc s = (Inr True, s)"
    by (simp add: pgss_restore_def)
  then show ?thesis
    by (simp add: inner_add_rule_def add_rule_def)
qed

text \<open>
  The theorem at the store with two rules: restoring the blacklist rule of user 10 for
  statement 42 again, with other counters and another text, changes nothing.
\<close>

theorem restore_existing_rule_is_noop_witness:
  "pgss_restore 10 42 ''select 2'' 5 7 98 6 rules_state = (Inr True, rules_state)
   \<and> inner_add_rule 10 42 ''select 2'' 98 6 rules_state = (Inr 0, rules_state)
   \<and> add_rule 10 ''select 2'' 98 \<lparr>n_parsetrees = 1, jumble_hash = 42, const_locations = [],
         scan_tokens = select_tokens\<rparr> 6 rules_state
       = (Inr 0, rules_state)"
proof -
  have k: "\<lparr>userid = 10, queryid = 42, key_type = ucast (98 :: uint32)\<rparr> \<in> key ` set (pgss_hash rules_state)"
    by (simp add: example_defs)
  have q: "sql_firewall_queryid ''select 2'' True \<lparr>n_parsetrees = 1, jumble_hash = 42, const_locations = [],
         scan_tokens = select_tokens\<rparr>
             = Inr (42, Some ''select 2'')"
    by (simp add: sql_firewall_queryid_def normalize_defs strlen_def)
  show ?thesis
    using restore_existing_rule_is_noop [OF k, of "''select 2''" 5 7 6 "''select 2''"
        "\<lparr>n_parsetrees = 1, jumble_hash = 42, const_locations = [],
         scan_tokens = select_tokens\<rparr>" "Some ''select 2''"] q
    by simp
qed

text \<open>
  Claim C4.  Outside Disabled mode each of the five administrative functions (add
  rule, delete rule, import, export, reset) raises an error and leaves the whole state,
  and so the rule store, as it was.  The error is the one for the mode (\<open>... is available
  only under the disable mode\<close>) whenever the caller is a superuser and the module is
  loaded; otherwise the missing privilege or the missing module is reported first.
  So a call that returns normally was made in Disabled mode.
\<close>

theorem admin_only_in_disabled_mode:
  assumes "pgfw_mode s \<noteq> PGFW_MODE_DISABLED"
  shows "(\<exists>e. sql_firewall_add_rule superuser uid query_string rule_type_name a enc s = (Inl e, s)
              \<and> (superuser \<and> loaded s \<longrightarrow> e = NotDisabledMode))
       \<and> (\<exists>e. sql_firewall_del_rule superuser uid query_string rule_type_name a s = (Inl e, s)
              \<and> (superuser \<and> loaded s \<longrightarrow> e = NotDisabledMode))
       \<and> (\<exists>e. sql_firewall_import_rule superuser records enc s = (Inl e, s)
              \<and> (superuser \<and> loaded s \<longrightarrow> e = NotDisabledMode))
       \<and> (\<exists>e. sql_firewall_export_rule superuser s = (Inl e, s)
              \<and> (superuser \<and> loaded s \<longrightarrow> e = NotDisabledMode))
       \<and> (\<exists>e. sql_firewall_reset superuser s = (Inl e, s)
              \<and> (superuser \<and> loaded s \<longrightarrow> e = NotDisabledMode))"
proof -
  have 1: "\<exists>e. sql_firewall_add_rule superuser uid query_string rule_type_name a enc s = (Inl e, s)
              \<and> (superuser \<and> loaded s \<longrightarrow> e = NotDisabledMode)"
    using assms by (simp add: sql_firewall_add_rule_def Let_def)
  have 2: "\<exists>e. sql_firewall_del_rule superuser uid query_string rule_type_name a s = (Inl e, s)
              \<and> (superuser \<and> loaded s \<longrightarrow> e = NotDisabledMode)"
    using assms by (simp add: sql_firewall_del_rule_def Let_def)
  have 3: "\<exists>e. sql_firewall_import_rule superuser records enc s = (Inl e, s)
              \<and> (superuser \<and> loaded s \<longrightarrow> e = NotDisabledMode)"
    using assms by (simp add: sql_firewall_import_rule_def)
  have 4: "\<exists>e. sql_firewall_export_rule superuser s = (Inl e, s)
              \<and> (superuser \<and> loaded s \<longrightarrow> e = NotDisabledMode)"
    using assms by (simp add: sql_firewall_export_rule_def)
  have 5: "\<exists>e. sql_firewall_reset superuser s = (Inl e, s)
              \<and> (superuser \<and> loaded s \<longrightarrow> e = NotDisabledMode)"
    using assms by (simp add: sql_firewall_reset_def)
  show ?thesis using 1 2 3 4 5 by blast
qed

text \<open>
  The theorem in Enforcing mode, for a superuser and the store with two rules: each
  call raises the mode error and the state stays.
\<close>

theorem admin_only_in_disabled_mode_witness:
  "sql_firewall_add_rule True 10 ''select 2'' ''blacklist''
       \<lparr>n_parsetrees = 1, jumble_hash = 43, const_locations = [],
         scan_tokens = select_tokens\<rparr> 6
       (rules_state\<lparr>pgfw_mode := PGFW_MODE_ENFORCING\<rparr>)
     = (Inl NotDisabledMode, rules_state\<lparr>pgfw_mode := PGFW_MODE_ENFORCING\<rparr>)
   \<and> sql_firewall_del_rule True 10 ''select 1'' ''blacklist''
       \<lparr>n_parsetrees = 1, jumble_hash = 42, const_locations = [],
         scan_tokens = select_tokens\<rparr>
       (rules_state\<lparr>pgfw_mode := PGFW_MODE_ENFORCING\<rparr>)
     = (Inl NotDisabledMode, rules_state\<lparr>pgfw_mode := PGFW_MODE_ENFORCING\<rparr>)
   \<and> sql_firewall_import_rule True [] 6 (rules_state\<lparr>pgfw_mode := PGFW_MODE_ENFORCING\<rparr>)
     = (Inl NotDisabledMode, rules_state\<lparr>pgfw_mode := PGFW_MODE_ENFORCING\<rparr>)
   \<and> sql_firewall_export_rule True (rules_state\<lparr>pgfw_mode := PGFW_MODE_ENFORCING\<rparr>)
     = (Inl NotDisabledMode, rules_state\<lparr>pgfw_mode := PGFW_MODE_ENFORCING\<rparr>)
   \<and> sql_firewall_reset True (rules_state\<lparr>pgfw_mode := PGFW_MODE_ENFORCING\<rparr>)
     = (Inl NotDisabledMode, rules_state\<lparr>pgfw_mode := PGFW_MODE_ENFORCING\<rparr>)"
proof -
  let ?s = "rules_state\<lparr>pgfw_mode := PGFW_MODE_ENFORCING\<rparr>"
  have m: "pgfw_mode ?s \<noteq> PGFW_MODE_DISABLED" and l: "loaded ?s"
    by (simp_all add: example_defs)
  show ?thesis
    using admin_only_in_disabled_mode [OF m, of True 10 "''select 2''" "''blacklist''"
        "\<lparr>n_parsetrees = 1, jumble_hash = 43, const_locations = [],
         scan_tokens = select_tokens\<rparr>" 6]
      admin_only_in_disabled_mode [OF m, of True 10 "''select 1''" "''blacklist''"
        "\<lparr>n_parsetrees = 1, jumble_hash = 42, const_locations = [],
         scan_tokens = select_tokens\<rparr>" 6 "[]"] l
    by auto
qed

text \<open>
  In Disabled mode the same calls go through: a superuser adds a blacklist rule for a
  new statement to the store with two rules, which then holds three.
\<close>

lemma add_rule_in_disabled_mode:
  "fst (sql_firewall_add_rule True 10 ''select 2'' ''blacklist''
          \<lparr>n_parsetrees = 1, jumble_hash = 43, const_locations = [],
         scan_tokens = select_tokens\<rparr> 6 rules_state) = Inr True
   \<and> map key (pgss_hash (snd (sql_firewall_add_rule True 10 ''select 2'' ''blacklist''
          \<lparr>n_parsetrees = 1, jumble_hash = 43, const_locations = [],
         scan_tokens = select_tokens\<rparr> 6 rules_state)))
      = [key wl_entry, key bl_entry, \<lparr>userid = 10, queryid = 43, key_type = 98\<rparr>]"
  by (simp add: sql_firewall_add_rule_def add_rule_def inner_add_rule_def pgss_restore_def
      sql_firewall_queryid_def normalize_defs strlen_def
      rule_typeid_def PGFW_DUMMY_ENTRY_def PGFW_BLACKLIST_ENTRY_def PGFW_WHITELIST_ENTRY_def
      hash_find_def qtext_store_def next_io_def entry_alloc_def update_entry_def
      need_gc_qtexts_def example_defs Let_def)

section \<open>Properties of compaction\<close>

lemma unat_of_nat_le: "unat (of_nat n :: Size) \<le> n"
  by (simp add: unat_of_nat)

lemma sint_succ:
  assumes "sint (n :: cint) < 2147483647"
  shows "sint (n + 1) = sint n + 1"
proof -
  have ge: "- (2 ^ 31) \<le> sint n" using sint_ge [of n] by simp
  have "sint (n + 1) = signed_take_bit 31 (sint n + 1)"
    by (simp add: sint_word_add)
  also have "\<dots> = sint n + 1"
    using assms ge by (intro signed_take_bit_int_eq_self) simp_all
  finally show ?thesis .
qed

lemma unat_scast_succ:
  assumes "0 \<le> sint (n :: cint)" and "sint n < 2147483647"
  shows "unat (scast (n + 1) :: Size) = nat (sint n) + 1"
proof -
  have "sint (n + 1) = sint n + 1" using assms(2) by (rule sint_succ)
  then show ?thesis
    using assms(1) unat_scast_nonneg [of "n + 1"] by (simp add: nat_add_distrib)
qed

lemma fetched_text_in_buffer:
  assumes "qtext_fetch (query_offset e) (query_len e) (Some qbuffer) (of_nat (length qbuffer)) = Inr (Some p)"
    and "text_ref_ok e"
  shows "\<not> length qbuffer < unat p + unat (scast (query_len e + 1) :: Size)"
proof -
  have sz: "unat (of_nat (length qbuffer) :: Size) \<le> length qbuffer" by (rule unat_of_nat_le)
  from assms(2) have nowrap: "unat (query_offset e) + nat (sint (query_len e)) < 2 ^ 64"
    and small: "sint (query_len e) < 2147483647" by (simp_all add: text_ref_ok_def)
  from qtext_fetch_Some [OF assms(1) sz nowrap]
  have p: "p = query_offset e" and nonneg: "0 \<le> sint (query_len e)"
    and lt: "unat (query_offset e) + nat (sint (query_len e)) < length qbuffer" by simp_all
  show ?thesis
    using lt p unat_scast_succ [OF nonneg small] by simp
qed

lemma gc_loop_rules:
  assumes "\<forall>e \<in> set todo. text_ref_ok e"
  shows "\<exists>b tab ext' n' s'. gc_loop qbuffer todo visited ext n s = (Inr b, tab, ext', n', s')
           \<and> map rule_of tab = map rule_of (visited @ todo)"
  using assms
proof (induction todo arbitrary: visited ext n s)
  case Nil
  then show ?case by auto
next
  case (Cons e es)
  have ok: "text_ref_ok e" and rest: "\<forall>e \<in> set es. text_ref_ok e" using Cons.prems by simp_all
  have sz: "unat (of_nat (length qbuffer) :: Size) \<le> length qbuffer" by (rule unat_of_nat_le)
  show ?case
  proof (cases "qtext_fetch (query_offset e) (query_len e) (Some qbuffer) (of_nat (length qbuffer))")
    case (Inl f)
    then show ?thesis using qtext_fetch_no_fault [OF sz] by blast
  next
    case (Inr r)
    show ?thesis
    proof (cases r)
      case None
      have "rule_of (e\<lparr>query_offset := 0, query_len := - 1\<rparr>) = rule_of e" by (simp add: rule_of_def)
      then show ?thesis
        using Cons.IH [OF rest, of "visited @ [e\<lparr>query_offset := 0, query_len := - 1\<rparr>]" ext n s] Inr None
        by simp
    next
      case (Some p)
      have inb: "\<not> length qbuffer < unat p + unat (scast (query_len e + 1) :: Size)"
        using fetched_text_in_buffer [OF _ ok] Inr Some by simp
      obtain io s1 where io: "next_io s = (io, s1)" by (cases "next_io s")
      show ?thesis
      proof (cases io)
        case False
        then show ?thesis using Inr Some inb io by auto
      next
        case True
        have "rule_of (e\<lparr>query_offset := ext\<rparr>) = rule_of e" by (simp add: rule_of_def)
        then show ?thesis
          using Cons.IH [OF rest, of "visited @ [e\<lparr>query_offset := ext\<rparr>]"
              "ext + scast (query_len e + 1)" "n + 1"
              "s1\<lparr>qtext_file := qtext_file s1 @
                   take (unat (scast (query_len e + 1) :: Size)) (drop (unat p) qbuffer)\<rparr>"]
            Inr Some inb io True
          by simp
      qed
    qed
  qed
qed

lemma map_rule_of_invalidate:
  "map rule_of (map (\<lambda>e. e\<lparr>query_offset := 0, query_len := - 1\<rparr>) tab) = map rule_of tab"
  by (induction tab) (simp_all add: rule_of_def)

lemma gc_fail_rules: "map rule_of (pgss_hash (gc_fail s)) = map rule_of (pgss_hash s)"
  using map_rule_of_invalidate [of "pgss_hash s"] by (simp add: gc_fail_def record_gc_qtexts_def)

lemma gc_qtexts_rules:
  assumes "\<forall>e \<in> set (pgss_hash s). text_ref_ok e"
  shows "\<exists>s'. gc_qtexts s = (Inr (), s') \<and> map rule_of (pgss_hash s') = map rule_of (pgss_hash s)"
proof (cases "need_gc_qtexts s")
  case False
  then show ?thesis by (simp add: gc_qtexts_def)
next
  case True
  obtain qb s1 where load: "qtext_load_file s = (qb, s1)" by (cases "qtext_load_file s")
  have h1: "pgss_hash s1 = pgss_hash s"
    using load by (auto simp: qtext_load_file_def next_io_def split: list.splits if_splits)
  show ?thesis
  proof (cases qb)
    case None
    then show ?thesis using True load h1 by (simp add: gc_qtexts_def)
  next
    case (Some qbuffer)
    obtain opened s2 where op: "next_io s1 = (opened, s2)" by (cases "next_io s1")
    have h2: "pgss_hash s2 = pgss_hash s"
      using op h1 by (auto simp: next_io_def split: list.splits)
    show ?thesis
    proof (cases opened)
      case False
      then show ?thesis
        using True load Some op h2 by (simp add: gc_qtexts_def gc_fail_rules)
    next
      case opened: True
      from gc_loop_rules [of "pgss_hash s2" qbuffer "[]" 0 0 "s2\<lparr>qtext_file := []\<rparr>"] assms h2
      obtain b tab ext' n' s3 where
        loop: "gc_loop qbuffer (pgss_hash s2) [] 0 0 (s2\<lparr>qtext_file := []\<rparr>) = (Inr b, tab, ext', n', s3)"
        and tab: "map rule_of tab = map rule_of (pgss_hash s)" by auto
      obtain closed s4 where cl: "next_io s3 = (closed, s4)" by (cases "next_io s3")
      show ?thesis
        using True load Some op opened loop cl tab
        by (cases b; cases closed)
           (simp_all add: gc_qtexts_def gc_fail_rules record_gc_qtexts_def)
    qed
  qed
qed

section \<open>Properties of learning\<close>

lemma sint_strlen:
  assumes "length str < 2147483648"
  shows "sint (strlen str) = int (length str)"
proof -
  have "sint (of_nat (length str) :: cint) = signed_take_bit 31 (int (length str))"
    by (simp add: signed_of_nat)
  also have "\<dots> = int (length str)"
    using assms by (intro signed_take_bit_int_eq_self) simp_all
  finally show ?thesis by (simp add: strlen_def)
qed

lemma unat_scast_strlen_succ:
  assumes "length str < 2147483647"
  shows "unat (scast (strlen str + 1) :: Size) = length str + 1"
proof -
  have s: "sint (strlen str) = int (length str)" using assms by (intro sint_strlen) simp
  show ?thesis using unat_scast_succ [of "strlen str"] s assms by simp
qed

lemma scast_strlen_succ:
  assumes "length str < 2147483647"
  shows "(scast (strlen str + 1) :: Size) = of_nat (length str + 1)"
proof -
  have "(scast (strlen str + 1) :: Size) = of_nat (unat (scast (strlen str + 1) :: Size))"
    by simp
  then show ?thesis by (simp only: unat_scast_strlen_succ [OF assms])
qed

lemma weave_placeholders_set:
  "set (weave (gaps str pos spans) (replicate (length spans) ''?'')) \<subseteq> set str \<union> {CHR ''?''}"
proof (induction spans arbitrary: pos)
  case Nil
  show ?case using set_drop_subset [of pos str] by auto
next
  case (Cons sp spans)
  obtain off len where sp: "sp = (off, len)" by (cases sp)
  have "set (take (off - pos) (drop pos str)) \<subseteq> set str"
    using set_take_subset set_drop_subset by fast
  then show ?case using Cons.IH [of "off + len"] by (auto simp: sp)
qed

lemma learned_text_nul:
  assumes "NUL \<notin> set query"
  shows "NUL \<notin> set (learned_text tokens query jstate)"
proof (cases jstate)
  case None
  then show ?thesis using assms by (simp add: learned_text_def)
next
  case (Some clocations)
  have "NUL \<noteq> CHR ''?''" by (simp add: NUL_def)
  then show ?thesis
    using assms Some weave_placeholders_set [of query 0 "constant_spans tokens clocations query"]
    by (auto simp: learned_text_def)
qed

lemma learned_text_length:
  assumes "NUL \<notin> set query" and "locations_ok tokens query jstate"
  shows "length (learned_text tokens query jstate) \<le> length query"
proof (cases jstate)
  case None
  then show ?thesis by (simp add: learned_text_def)
next
  case (Some clocations)
  with assms normalized_query_weave [of query tokens clocations] show ?thesis
    by (auto simp: learned_text_def locations_ok_def)
qed

lemma prepare_text:
  assumes "NUL \<notin> set query" and "locations_ok tokens query jstate" and "length query < 2147483648"
  shows "(case jstate of
            None \<Rightarrow> Inr (query, strlen query)
          | Some clocations \<Rightarrow>
              (case generate_normalized_query tokens clocations query (sint (strlen query)) of
                 Inl f \<Rightarrow> Inl f
               | Inr (norm_query, n) \<Rightarrow> Inr (norm_query, of_int n)))
         = Inr (learned_text tokens query jstate, strlen (learned_text tokens query jstate))"
proof (cases jstate)
  case None
  then show ?thesis by (simp add: learned_text_def)
next
  case (Some clocations)
  with assms(1,2) normalized_query_weave [of query tokens clocations]
  have "generate_normalized_query tokens clocations query (int (length query))
          = Inr (learned_text tokens query jstate, int (length (learned_text tokens query jstate)))"
    by (auto simp: learned_text_def locations_ok_def)
  then show ?thesis
    using Some sint_strlen [OF assms(3)] by (simp add: strlen_def)
qed

lemma lookup_whitelist_None:
  assumes "lookup_whitelist uid qid s = None"
  shows "\<lparr>userid = uid, queryid = qid, key_type = ucast PGFW_WHITELIST_ENTRY\<rparr> \<notin> key ` set (pgss_hash s)"
proof -
  have "hash_find \<lparr>userid = uid, queryid = qid, key_type = ucast PGFW_WHITELIST_ENTRY\<rparr> (pgss_hash s) = None"
    using assms
    by (cases "uid = InvalidOid")
       (auto simp: lookup_whitelist_def lookup_rule_def inner_lookup_rule_def Let_def InvalidOid_def
             split: option.splits)
  then show ?thesis using hash_find_Some_iff [of _ "pgss_hash s"] by force
qed

lemma create_entry:
  assumes "k \<notin> key ` set (pgss_hash s)" and "int (length (pgss_hash s)) < sint (pgss_max s)"
  shows "entry_alloc k off len enc sticky s =
           (Some k, s\<lparr>pgss_hash := pgss_hash s @
                       [\<lparr>key = k, counters = \<lparr>calls = 0, banned = 0\<rparr>, query_offset = off,
                         query_len = len, encoding = enc, entry_type = stale_type s\<rparr>]\<rparr>)"
proof -
  have "hash_find k (pgss_hash s) = None"
    using assms(1) hash_find_Some_iff [of k "pgss_hash s"] by (cases "hash_find k (pgss_hash s)") auto
  then show ?thesis using assms(2) by (simp add: entry_alloc_def)
qed

lemma update_new_entry:
  assumes "k \<notin> key ` set tab" and "key e = k"
  shows "update_entry k f (tab @ [e]) = tab @ [f e]"
proof -
  have "map (\<lambda>e. if key e = k then f e else e) tab = tab"
    using assms(1) by (induction tab) auto
  then show ?thesis using assms(2) by (simp add: update_entry_def)
qed

text \<open>The entry that learning creates for a text stored at an offset.\<close>

lemma learn_entry:
  assumes absent: "k \<notin> key ` set (pgss_hash s)"
    and room: "int (length (pgss_hash s)) < sint (pgss_max s)"
  shows "(case entry_alloc k off len enc sticky s of
            (None, s3) \<Rightarrow> (Inl (Crash NullPointerDereference), s3)
          | (Some k', s3) \<Rightarrow>
              let s4 = s3\<lparr>pgss_hash := update_entry k' (\<lambda>e. e\<lparr>entry_type := t\<rparr>) (pgss_hash s3)\<rparr>
              in if do_gc then gc_qtexts s4 else (Inr (), s4))
         = (let s4 = s\<lparr>pgss_hash := pgss_hash s @
                          [\<lparr>key = k, counters = \<lparr>calls = 0, banned = 0\<rparr>, query_offset = off,
                            query_len = len, encoding = enc, entry_type = t\<rparr>]\<rparr>
            in if do_gc then gc_qtexts s4 else (Inr (), s4))"
  using update_new_entry [OF absent, of _ "\<lambda>e. e\<lparr>entry_type := t\<rparr>"]
  by (simp add: create_entry [OF absent room])

text \<open>
  One attempt to append a text: the extent moves on whether the write succeeds or
  not, and the text with its NUL is written at the old extent when it does.
\<close>

lemma qtext_store_text:
  assumes "(scast (q_len + 1) :: Size) = n" and "unat n = length stx + 1"
  shows "qtext_store stx q_len s =
           ((io_script s = [] \<or> hd (io_script s), extent (pgss s), gc_count (pgss s)),
            s\<lparr>pgss := (pgss s)\<lparr>extent := extent (pgss s) + n\<rparr>,
              io_script := tl (io_script s),
              qtext_file := (if io_script s = [] \<or> hd (io_script s)
                             then file_write (qtext_file s) (unat (extent (pgss s))) (stx @ [NUL])
                             else qtext_file s)\<rparr>)"
  unfolding qtext_store_def Let_def assms(1)
  by (cases "io_script s") (simp_all add: next_io_def assms(2))

lemma new_text_ref_ok:
  assumes len: "length str < 2147483647"
    and off: "unat (off :: Size) + length str < 2 ^ 64"
  shows "text_ref_ok \<lparr>key = k, counters = c, query_offset = off, query_len = strlen str,
                       encoding = enc, entry_type = t\<rparr>"
proof -
  have s: "sint (strlen str) = int (length str)" using len by (intro sint_strlen) simp
  show ?thesis using s len off by (simp add: text_ref_ok_def)
qed

lemma c_string_at_file_write:
  assumes "NUL \<notin> set stx"
  shows "c_string_at (file_write file off (stx @ [NUL])) off = stx"
proof -
  have "length (take off (file @ replicate (off - length file) NUL)) = off" by simp
  then have "drop off (file_write file off (stx @ [NUL]))
               = stx @ NUL # drop (off + length (stx @ [NUL])) file"
    unfolding file_write_def by (metis append_Cons append_Nil append_assoc append_eq_conv_conj)
  moreover have "\<forall>c \<in> set stx. c \<noteq> NUL" using assms by auto
  ultimately show ?thesis
    by (simp add: c_string_at_def takeWhile_tail)
qed


text \<open>The learning branch in terms of its two attempts to append the text.\<close>

lemma learn_statement_run:
  fixes s :: fw_state
  assumes nul: "NUL \<notin> set query" and small: "length query < 2147483647"
    and prep: "locations_ok tokens query jstate"
    and stx: "stx = learned_text tokens query jstate"
    and n: "n = (of_nat (length stx + 1) :: Size)"
    and first: "first = (io_script s = [] \<or> hd (io_script s))"
    and s1: "s1 = s\<lparr>pgss := (pgss s)\<lparr>extent := extent (pgss s) + n\<rparr>,
              io_script := tl (io_script s),
              qtext_file := (if first
                             then file_write (qtext_file s) (unat (extent (pgss s))) (stx @ [NUL])
                             else qtext_file s)\<rparr>"
    and second: "second = (io_script s1 = [] \<or> hd (io_script s1))"
    and s2: "s2 = s1\<lparr>pgss := (pgss s1)\<lparr>extent := extent (pgss s1) + n\<rparr>,
              io_script := tl (io_script s1),
              qtext_file := (if second
                             then file_write (qtext_file s1) (unat (extent (pgss s1))) (stx @ [NUL])
                             else qtext_file s1)\<rparr>"
    and k: "k = \<lparr>userid = uid, queryid = qid, key_type = ucast PGFW_WHITELIST_ENTRY\<rparr>"
  shows "learn_statement tokens query qid jstate uid enc s =
      (if first then
         (case entry_alloc k (extent (pgss s)) (strlen stx) enc (jstate \<noteq> None) s1 of
            (None, s3) \<Rightarrow> (Inl (Crash NullPointerDereference), s3)
          | (Some k', s3) \<Rightarrow>
              let s4 = s3\<lparr>pgss_hash := update_entry k' (\<lambda>e. e\<lparr>entry_type := PGFW_WHITELIST_ENTRY\<rparr>)
                                          (pgss_hash s3)\<rparr>
              in if need_gc_qtexts s1 then gc_qtexts s4 else (Inr (), s4))
       else if second then
         (case entry_alloc k (extent (pgss s) + n) (strlen stx) enc (jstate \<noteq> None) s2 of
            (None, s3) \<Rightarrow> (Inl (Crash NullPointerDereference), s3)
          | (Some k', s3) \<Rightarrow>
              let s4 = s3\<lparr>pgss_hash := update_entry k' (\<lambda>e. e\<lparr>entry_type := PGFW_WHITELIST_ENTRY\<rparr>)
                                          (pgss_hash s3)\<rparr>
              in if need_gc_qtexts s1 then gc_qtexts s4 else (Inr (), s4))
       else (Inr (), s2))"
proof -
  have tsmall: "length stx < 2147483647"
    using learned_text_length [OF nul prep] small by (simp add: stx)
  have c: "(scast (strlen stx + 1) :: Size) = n"
    using scast_strlen_succ [OF tsmall] by (simp only: n)
  have u: "unat n = length stx + 1"
    using unat_scast_strlen_succ [OF tsmall] by (simp only: c)
  have st1: "qtext_store stx (strlen stx) s = ((first, extent (pgss s), gc_count (pgss s)), s1)"
    unfolding s1 first by (rule qtext_store_text [OF c u])
  have st2: "qtext_store stx (strlen stx) s1 = ((second, extent (pgss s1), gc_count (pgss s1)), s2)"
    unfolding s2 second by (rule qtext_store_text [OF c u])
  have h1: "gc_count (pgss s1) = gc_count (pgss s)" "extent (pgss s1) = extent (pgss s) + n"
    by (simp_all add: s1)
  show ?thesis
    unfolding learn_statement_def
    using small st1 st2 h1
    by (simp add: prepare_text [OF nul prep] Let_def stx [symmetric] k [symmetric])
qed

text \<open>
  The learning branch below capacity, in full.  The text is appended at the extent, or after the
  space of a failed first attempt; the new entry refers to it; a compaction that the
  first attempt has made due then runs on that store.
\<close>

lemma learn_statement_effect:
  fixes s :: fw_state
  assumes nul: "NUL \<notin> set query" and small: "length query < 2147483647"
    and prep: "locations_ok tokens query jstate"
    and k: "k = \<lparr>userid = uid, queryid = qid, key_type = ucast PGFW_WHITELIST_ENTRY\<rparr>"
    and absent: "k \<notin> key ` set (pgss_hash s)"
    and room: "int (length (pgss_hash s)) < sint (pgss_max s)"
    and refs: "\<forall>e \<in> set (pgss_hash s). text_ref_ok e"
    and ext: "unat (extent (pgss s)) + 2 * (length query + 1) < 2 ^ 64"
    and stx: "stx = learned_text tokens query jstate"
    and n: "n = (of_nat (length stx + 1) :: Size)"
    and first: "first = (io_script s = [] \<or> hd (io_script s))"
    and off: "off = (if first then extent (pgss s) else extent (pgss s) + n)"
    and appended: "appended =
          s\<lparr>pgss := (pgss s)\<lparr>extent := off + n\<rparr>,
            io_script := (if first then tl (io_script s) else tl (tl (io_script s))),
            qtext_file := file_write (qtext_file s) (unat off) (stx @ [NUL]),
            pgss_hash := pgss_hash s @
              [\<lparr>key = k, counters = \<lparr>calls = 0, banned = 0\<rparr>, query_offset = off,
                query_len = strlen stx, encoding = enc, entry_type = PGFW_WHITELIST_ENTRY\<rparr>]\<rparr>"
    and due: "due = need_gc_qtexts (s\<lparr>pgss := (pgss s)\<lparr>extent := extent (pgss s) + n\<rparr>\<rparr>)"
  shows "\<exists>s'. learn_statement tokens query qid jstate uid enc s = (Inr (), s')
           \<and> (if (\<exists>rest. io_script s = False # False # rest)
              then pgss_hash s' = pgss_hash s \<and> qtext_file s' = qtext_file s
              else c_string_at (qtext_file appended) (unat off) = stx
                 \<and> s' = (if due then snd (gc_qtexts appended) else appended)
                 \<and> map rule_of (pgss_hash s') =
                     map rule_of (pgss_hash s) @ [(k, \<lparr>calls = 0, banned = 0\<rparr>, PGFW_WHITELIST_ENTRY)])"
proof -
  have tlen: "length stx \<le> length query"
    using learned_text_length [OF nul prep] by (simp add: stx)
  have tsmall: "length stx < 2147483647" using tlen small by simp
  have snul: "NUL \<notin> set stx" using learned_text_nul [OF nul] by (simp add: stx)
  have c: "(scast (strlen stx + 1) :: Size) = n"
    using scast_strlen_succ [OF tsmall] by (simp only: n)
  have u: "unat n = length stx + 1"
    using unat_scast_strlen_succ [OF tsmall] by (simp only: c)
  define s1 where "s1 = s\<lparr>pgss := (pgss s)\<lparr>extent := extent (pgss s) + n\<rparr>,
              io_script := tl (io_script s),
              qtext_file := (if first
                             then file_write (qtext_file s) (unat (extent (pgss s))) (stx @ [NUL])
                             else qtext_file s)\<rparr>"
  define second where "second = (io_script s1 = [] \<or> hd (io_script s1))"
  define s2 where "s2 = s1\<lparr>pgss := (pgss s1)\<lparr>extent := extent (pgss s1) + n\<rparr>,
              io_script := tl (io_script s1),
              qtext_file := (if second
                             then file_write (qtext_file s1) (unat (extent (pgss s1))) (stx @ [NUL])
                             else qtext_file s1)\<rparr>"
  have h1: "pgss_hash s1 = pgss_hash s" "pgss_max s1 = pgss_max s" "gc_count (pgss s1) = gc_count (pgss s)"
    "extent (pgss s1) = extent (pgss s) + n" "io_script s1 = tl (io_script s)"
    by (simp_all add: s1_def)
  have h2: "pgss_hash s2 = pgss_hash s" "pgss_max s2 = pgss_max s"
    by (simp_all add: s2_def h1)
  have gc1: "need_gc_qtexts s1 = due"
    by (simp add: need_gc_qtexts_def s1_def due)
  note run1 = learn_statement_run [OF nul small prep stx n first s1_def second_def s2_def k, of enc]
  note run = run1 [unfolded gc1]
  have fail_iff: "(\<exists>rest. io_script s = False # False # rest) \<longleftrightarrow> \<not> first \<and> \<not> second"
    unfolding first second_def h1(5)
    by (cases "io_script s"; cases "tl (io_script s)") auto
  have off_bound: "unat off + length stx < 2 ^ 64"
  proof -
    have "unat (extent (pgss s) + n) \<le> unat (extent (pgss s)) + (length stx + 1)"
      using u by (simp add: unat_word_ariths)
    then show ?thesis using ext tlen by (simp add: off)
  qed
  let ?new = "\<lparr>key = k, counters = \<lparr>calls = 0, banned = 0\<rparr>, query_offset = off,
                query_len = strlen stx, encoding = enc, entry_type = PGFW_WHITELIST_ENTRY\<rparr>"
  have hash: "pgss_hash appended = pgss_hash s @ [?new]" by (simp add: appended)
  have text_there: "c_string_at (qtext_file appended) (unat off) = stx"
    using c_string_at_file_write [OF snul] by (simp add: appended)
  have rules: "map rule_of (pgss_hash appended) =
        map rule_of (pgss_hash s) @ [(k, \<lparr>calls = 0, banned = 0\<rparr>, PGFW_WHITELIST_ENTRY)]"
    by (simp add: hash rule_of_def)
  have ok: "\<forall>e \<in> set (pgss_hash appended). text_ref_ok e"
    using refs new_text_ref_ok [OF tsmall off_bound] by (simp add: hash)
  have created: "\<exists>s'. (let s4 = appended in if due then gc_qtexts s4 else (Inr (), s4)) = (Inr (), s')
          \<and> s' = (if due then snd (gc_qtexts appended) else appended)
          \<and> map rule_of (pgss_hash s') =
              map rule_of (pgss_hash s) @ [(k, \<lparr>calls = 0, banned = 0\<rparr>, PGFW_WHITELIST_ENTRY)]"
  proof (cases due)
    case False
    then show ?thesis using rules by (simp add: Let_def)
  next
    case True
    from gc_qtexts_rules [OF ok] obtain s' where
      "gc_qtexts appended = (Inr (), s')" "map rule_of (pgss_hash s') = map rule_of (pgss_hash appended)"
      by blast
    then show ?thesis using True rules by (simp add: Let_def)
  qed
  show ?thesis
  proof (cases first)
    case True
    have abs1: "k \<notin> key ` set (pgss_hash s1)" using absent by (simp add: h1)
    have room1: "int (length (pgss_hash s1)) < sint (pgss_max s1)" using room by (simp add: h1)
    have app: "s1\<lparr>pgss_hash := pgss_hash s1 @
                      [\<lparr>key = k, counters = \<lparr>calls = 0, banned = 0\<rparr>, query_offset = extent (pgss s),
                        query_len = strlen stx, encoding = enc,
                        entry_type = PGFW_WHITELIST_ENTRY\<rparr>]\<rparr> = appended"
      using True by (simp add: s1_def appended off)
    have "learn_statement tokens query qid jstate uid enc s =
        (let s4 = appended in if due then gc_qtexts s4 else (Inr (), s4))"
      unfolding run using True by (simp only: if_True learn_entry [OF abs1 room1] app)
    then show ?thesis
      using True fail_iff created text_there by auto
  next
    case False
    show ?thesis
    proof (cases second)
      case True
      have abs2: "k \<notin> key ` set (pgss_hash s2)" using absent by (simp add: h2)
      have room2: "int (length (pgss_hash s2)) < sint (pgss_max s2)" using room by (simp add: h2)
      have app: "s2\<lparr>pgss_hash := pgss_hash s2 @
                        [\<lparr>key = k, counters = \<lparr>calls = 0, banned = 0\<rparr>,
                          query_offset = extent (pgss s) + n,
                          query_len = strlen stx, encoding = enc,
                          entry_type = PGFW_WHITELIST_ENTRY\<rparr>]\<rparr> = appended"
        using True False by (simp add: s2_def s1_def appended off)
      have "learn_statement tokens query qid jstate uid enc s =
          (let s4 = appended in if due then gc_qtexts s4 else (Inr (), s4))"
        unfolding run using True False by (simp only: if_True if_False learn_entry [OF abs2 room2] app)
      then show ?thesis
        using True False fail_iff created text_there by auto
    next
      case f2: False
      have "qtext_file s2 = qtext_file s" using False f2 by (simp add: s2_def s1_def)
      then show ?thesis using False f2 fail_iff h2 unfolding run by simp
    qed
  qed
qed

text \<open>At capacity the learning branch dereferences the NULL that \<open>entry_alloc\<close> returns.\<close>

lemma learn_statement_at_capacity:
  assumes nul: "NUL \<notin> set query" and small: "length query < 2147483647"
    and prep: "locations_ok tokens query jstate"
    and full: "sint (pgss_max s) \<le> int (length (pgss_hash s))"
    and stored: "\<not> (\<exists>rest. io_script s = False # False # rest)"
  shows "\<exists>s'. learn_statement tokens query qid jstate uid enc s = (Inl (Crash NullPointerDereference), s')
             \<and> pgss_hash s' = pgss_hash s"
proof -
  define stx where "stx = learned_text tokens query jstate"
  define n where "n = (of_nat (length stx + 1) :: Size)"
  define first where "first = (io_script s = [] \<or> hd (io_script s))"
  define s1 where "s1 = s\<lparr>pgss := (pgss s)\<lparr>extent := extent (pgss s) + n\<rparr>,
              io_script := tl (io_script s),
              qtext_file := (if first
                             then file_write (qtext_file s) (unat (extent (pgss s))) (stx @ [NUL])
                             else qtext_file s)\<rparr>"
  define second where "second = (io_script s1 = [] \<or> hd (io_script s1))"
  define s2 where "s2 = s1\<lparr>pgss := (pgss s1)\<lparr>extent := extent (pgss s1) + n\<rparr>,
              io_script := tl (io_script s1),
              qtext_file := (if second
                             then file_write (qtext_file s1) (unat (extent (pgss s1))) (stx @ [NUL])
                             else qtext_file s1)\<rparr>"
  have h1: "pgss_hash s1 = pgss_hash s" "pgss_max s1 = pgss_max s" "io_script s1 = tl (io_script s)"
    by (simp_all add: s1_def)
  have h2: "pgss_hash s2 = pgss_hash s" "pgss_max s2 = pgss_max s"
    by (simp_all add: s2_def h1)
  have some: "first \<or> second"
    using stored unfolding first_def second_def h1(3)
    by (cases "io_script s"; cases "tl (io_script s)") auto
  show ?thesis
    unfolding learn_statement_run [OF nul small prep stx_def n_def first_def s1_def second_def s2_def refl]
    using some full h1 h2 by (auto simp: entry_alloc_def)
qed

text \<open>
  Claim C3, amended.  In Learning mode, let a statement have no whitelist entry for
  its user and fingerprint, neither exact nor for the wildcard user, and let the store
  be below its capacity.  The constant locations, when given, are records of
  \<open>RecordConstLocation\<close> whose spans, as a scanner resolves them, do not overlap; the
  sizes are within the range of the machine types: the query is shorter than
  \<open>INT_MAX\<close>, the text references of the stored entries do not wrap, and the extent
  leaves room for two copies of the text below \<open>2^64\<close>.  Then \<open>pgss_store\<close> returns
  normally, so execution is not denied, and:
  \<^item> when both attempts to append the text to the query text file fail, no entry is
    created and the file is as before;
  \<^item> otherwise the text, normalized if constant locations are given, and its NUL
    are written to the file, at the old extent if the first attempt succeeds and
    after the space of the failed attempt if only the second does; exactly one
    entry is added after those that were there: the whitelist key of the user and
    the fingerprint, with calls = 0 and banned = 0, referring to the text just
    written; and if the first attempt has made a compaction of the file due, the
    compaction runs on that store.  In each case the store then holds the rules
    that were there, unchanged, and the new rule after them.
\<close>

theorem learning_creates_whitelist_entry:
  assumes "loaded s" and "pgfw_mode s = PGFW_MODE_LEARNING"
    and "lookup_whitelist uid qid s = None"
    and "int (length (pgss_hash s)) < sint (pgss_max s)"
    and "NUL \<notin> set query" and "length query < 2147483647"
    and "locations_ok tokens query jstate"
    and "\<forall>e \<in> set (pgss_hash s). text_ref_ok e"
    and "unat (extent (pgss s)) + 2 * (length query + 1) < 2 ^ 64"
  shows "\<exists>s'. pgss_store tokens query qid jstate uid enc s = (Inr (), s')
           \<and> (let stx = learned_text tokens query jstate;
                   n = (of_nat (length stx + 1) :: Size);
                   first = (io_script s = [] \<or> hd (io_script s));
                   off = (if first then extent (pgss s) else extent (pgss s) + n);
                   k = \<lparr>userid = uid, queryid = qid, key_type = ucast PGFW_WHITELIST_ENTRY\<rparr>;
                   appended =
                     s\<lparr>pgss := (pgss s)\<lparr>extent := off + n\<rparr>,
                       io_script := (if first then tl (io_script s) else tl (tl (io_script s))),
                       qtext_file := file_write (qtext_file s) (unat off) (stx @ [NUL]),
                       pgss_hash := pgss_hash s @
                         [\<lparr>key = k, counters = \<lparr>calls = 0, banned = 0\<rparr>, query_offset = off,
                           query_len = strlen stx, encoding = enc,
                           entry_type = PGFW_WHITELIST_ENTRY\<rparr>]\<rparr>;
                   due = need_gc_qtexts (s\<lparr>pgss := (pgss s)\<lparr>extent := extent (pgss s) + n\<rparr>\<rparr>)
               in if (\<exists>rest. io_script s = False # False # rest)
                  then pgss_hash s' = pgss_hash s \<and> qtext_file s' = qtext_file s
                  else c_string_at (qtext_file appended) (unat off) = stx
                     \<and> s' = (if due then snd (gc_qtexts appended) else appended)
                     \<and> map rule_of (pgss_hash s') =
                         map rule_of (pgss_hash s) @ [(k, \<lparr>calls = 0, banned = 0\<rparr>, PGFW_WHITELIST_ENTRY)])"
proof -
  have run: "pgss_store tokens query qid jstate uid enc s = learn_statement tokens query qid jstate uid enc s"
    using assms(1,2,3) by (simp add: pgss_store_def)
  have absent: "\<lparr>userid = uid, queryid = qid, key_type = ucast PGFW_WHITELIST_ENTRY\<rparr>
                  \<notin> key ` set (pgss_hash s)"
    using assms(3) by (rule lookup_whitelist_None)
  show ?thesis
    unfolding run Let_def
    by (rule learn_statement_effect [OF assms(5,6,7) refl absent assms(4,8,9) refl refl refl refl refl refl])
qed

text \<open>
  The theorem at the store with two rules, in Learning mode, when the first attempt
  to write fails: user 10 runs \<open>select 2\<close>, fingerprint 43, constant at 7.  The first
  attempt has reserved the 9 bytes from offset 9; the text \<open>select ?\<close> is written at
  offset 18, and the store then holds a third entry, the whitelist rule for the new
  statement, which refers to offset 18.
\<close>

theorem learning_creates_whitelist_entry_witness:
  "fst (pgss_store select_tokens ''select 2'' 43 (Some (recorded [7])) 10 6
          (rules_state\<lparr>pgfw_mode := PGFW_MODE_LEARNING, io_script := [False]\<rparr>)) = Inr ()
   \<and> pgss_hash (snd (pgss_store select_tokens ''select 2'' 43 (Some (recorded [7])) 10 6
          (rules_state\<lparr>pgfw_mode := PGFW_MODE_LEARNING, io_script := [False]\<rparr>)))
       = [wl_entry, bl_entry,
          wl_entry\<lparr>key := \<lparr>userid = 10, queryid = 43, key_type = 119\<rparr>, query_offset := 18\<rparr>]
   \<and> qtext_file (snd (pgss_store select_tokens ''select 2'' 43 (Some (recorded [7])) 10 6
          (rules_state\<lparr>pgfw_mode := PGFW_MODE_LEARNING, io_script := [False]\<rparr>)))
       = ''select ?'' @ [NUL] @ replicate 9 NUL @ ''select ?'' @ [NUL]"
proof -
  let ?s = "rules_state\<lparr>pgfw_mode := PGFW_MODE_LEARNING, io_script := [False]\<rparr>"
  let ?j = "Some (recorded [7])"
  have sp: "constant_spans select_tokens (recorded [7]) ''select 2'' = [(7, 1)]"
    by (simp add: constant_spans_def normalize_defs resolved_def NUL_def)
  have t: "learned_text select_tokens ''select 2'' ?j = ''select ?''"
    by (simp add: learned_text_def sp)
  have l: "strlen ''select ?'' = 8" by (simp add: strlen_def)
  have 1: "loaded ?s" and 2: "pgfw_mode ?s = PGFW_MODE_LEARNING"
    and 3: "lookup_whitelist 10 43 ?s = None"
    and 4: "int (length (pgss_hash ?s)) < sint (pgss_max ?s)"
    and 5: "NUL \<notin> set ''select 2''" and 6: "length ''select 2'' < 2147483647"
    and 8: "\<forall>e \<in> set (pgss_hash ?s). text_ref_ok e"
    and 9: "unat (extent (pgss ?s)) + 2 * (length ''select 2'' + 1) < 2 ^ 64"
    by (simp_all add: example_defs lookup_defs text_ref_ok_def NUL_def)
  have 7: "locations_ok select_tokens ''select 2'' ?j"
    by (simp add: locations_ok_def sp) (simp add: select_tokens_def recorded_def RecordConstLocation_def)
  have io: "io_script ?s = [False]" and ex: "extent (pgss rules_state) = 9"
    and f: "qtext_file ?s = ''select ?'' @ [NUL]" and h: "pgss_hash ?s = [wl_entry, bl_entry]"
    by (simp_all add: example_defs)
  have nogc: "\<not> need_gc_qtexts (?s\<lparr>pgss := (pgss ?s)\<lparr>extent := extent (pgss ?s) + 9\<rparr>\<rparr>)"
    by (simp add: need_gc_qtexts_def example_defs)
  from learning_creates_whitelist_entry [OF 1 2 3 4 5 6 7 8 9, of 6]
  obtain s' where r: "pgss_store select_tokens ''select 2'' 43 ?j 10 6 ?s = (Inr (), s')"
    and e: "s' = ?s\<lparr>pgss := (pgss ?s)\<lparr>extent := 27\<rparr>,
                   io_script := [],
                   qtext_file := file_write (qtext_file ?s) 18 (''select ?'' @ [NUL]),
                   pgss_hash := pgss_hash ?s @
                     [\<lparr>key = \<lparr>userid = 10, queryid = 43, key_type = ucast PGFW_WHITELIST_ENTRY\<rparr>,
                       counters = \<lparr>calls = 0, banned = 0\<rparr>, query_offset = 18,
                       query_len = 8, encoding = 6, entry_type = PGFW_WHITELIST_ENTRY\<rparr>]\<rparr>"
    unfolding Let_def t l using nogc by (auto simp: io ex)
  have "pgss_hash s' = [wl_entry, bl_entry,
          wl_entry\<lparr>key := \<lparr>userid = 10, queryid = 43, key_type = 119\<rparr>, query_offset := 18\<rparr>]"
    unfolding e by (simp add: h) (simp add: wl_entry_def PGFW_WHITELIST_ENTRY_def)
  moreover have "qtext_file s' = ''select ?'' @ [NUL] @ replicate 9 NUL @ ''select ?'' @ [NUL]"
    unfolding e by (simp add: f file_write_def)
  ultimately show ?thesis using r by simp
qed

text \<open>
  Claim C3 as stated promises one new entry for every statement without a whitelist
  entry.  When both attempts to write the text fail, \<open>pgss_store\<close> gives up (lines
  1391-1394): in Learning mode, with no whitelist entry for the statement, the store is
  still empty after the evaluation.
\<close>

theorem learning_without_text_creates_no_entry:
  "pgfw_mode (fresh_state\<lparr>pgfw_mode := PGFW_MODE_LEARNING, io_script := [False, False]\<rparr>)
     = PGFW_MODE_LEARNING
   \<and> lookup_whitelist 10 42 (fresh_state\<lparr>pgfw_mode := PGFW_MODE_LEARNING, io_script := [False, False]\<rparr>)
     = None
   \<and> fst (pgss_store select_tokens ''select 1'' 42 (Some (recorded [7])) 10 6
            (fresh_state\<lparr>pgfw_mode := PGFW_MODE_LEARNING, io_script := [False, False]\<rparr>)) = Inr ()
   \<and> pgss_hash (snd (pgss_store select_tokens ''select 1'' 42 (Some (recorded [7])) 10 6
            (fresh_state\<lparr>pgfw_mode := PGFW_MODE_LEARNING, io_script := [False, False]\<rparr>))) = []"
  by (simp add: pgss_store_def learn_statement_def fresh_state_def lookup_defs
      normalize_defs NUL_def strlen_def qtext_store_def next_io_def Let_def)

text \<open>
  Claim C8 at a failing input.  The store is full (100 entries, \<open>sql_firewall.max\<close> =
  100) and in Learning mode; user 10 runs a statement that has no whitelist entry.  The
  text is stored, \<open>entry_alloc\<close> returns NULL with the capacity warning, and the
  assignment \<open>entry->type = ...\<close> of line 1401 dereferences it.
\<close>

theorem learning_at_capacity_dereferences_null:
  "pgfw_mode full_state = PGFW_MODE_LEARNING
   \<and> lookup_whitelist 10 42 full_state = None
   \<and> int (length (pgss_hash full_state)) = sint (pgss_max full_state)
   \<and> fst (pgss_store select_tokens ''select 1'' 42 None 10 6 full_state)
       = Inl (Crash NullPointerDereference)"
proof -
  have m: "pgfw_mode full_state = PGFW_MODE_LEARNING" and l: "loaded full_state"
    and n: "int (length (pgss_hash full_state)) = sint (pgss_max full_state)"
    and io: "\<not> (\<exists>rest. io_script full_state = False # False # rest)"
    by (simp_all add: full_state_def fresh_state_def)
  have nf: "hash_find k (pgss_hash full_state) = None" if "userid k \<noteq> 11" for k
    using that by (auto simp: hash_find_def find_None_iff full_state_def fresh_state_def wl_entry_def)
  have w: "lookup_whitelist 10 42 full_state = None"
    by (simp add: lookup_whitelist_def lookup_rule_def inner_lookup_rule_def nf InvalidOid_def Let_def)
  have p: "NUL \<notin> set ''select 1''" "length ''select 1'' < 2147483647"
    "locations_ok select_tokens ''select 1'' None"
    by (simp_all add: locations_ok_def NUL_def)
  have full: "sint (pgss_max full_state) \<le> int (length (pgss_hash full_state))" using n by simp
  have "pgss_store select_tokens ''select 1'' 42 None 10 6 full_state
          = learn_statement select_tokens ''select 1'' 42 None 10 6 full_state"
    using m l w by (simp add: pgss_store_def)
  then show ?thesis
    using learn_statement_at_capacity [OF p full io, of 42 10 6] m w n by auto
qed

section \<open>Properties of export\<close>

text \<open>
  An entry whose text cannot be fetched stops the export loop with a fault: no line is
  written for it or for any later entry.
\<close>

lemma export_loop_invalid_text:
  assumes "e \<in> set tab"
    and "qtext_fetch (query_offset e) (query_len e) qbuffer qbuffer_size = Inr None"
  shows "\<exists>f. export_loop qbuffer qbuffer_size tab = Inl f"
  using assms
proof (induction tab)
  case Nil
  then show ?case by simp
next
  case (Cons x xs)
  show ?case
  proof (cases "x = e")
    case True
    then show ?thesis using Cons.prems(2) by simp
  next
    case False
    then have "\<exists>f. export_loop qbuffer qbuffer_size xs = Inl f"
      using Cons by simp
    then show ?thesis
      by (auto split: sum.splits option.splits)
  qed
qed

text \<open>
  Claim C9 at a failing input.  After a failed compaction every entry has the text
  reference (0, -1).  In Disabled mode a superuser exports the rules: \<open>qtext_fetch\<close>
  returns NULL for the first entry and \<open>strchr\<close> (line 1808) is called on it.
\<close>

theorem export_scans_null_text:
  "map query_len (pgss_hash (gc_fail rules_state)) = [- 1, - 1]
   \<and> pgfw_mode (gc_fail rules_state) = PGFW_MODE_DISABLED
   \<and> qtext_fetch 0 (- 1) (Some (qtext_file (gc_fail rules_state)))
        (of_nat (length (qtext_file (gc_fail rules_state)))) = Inr None
   \<and> fst (sql_firewall_export_rule True (gc_fail rules_state)) = Inl (Crash NullPointerDereference)"
  by (simp add: sql_firewall_export_rule_def qtext_load_file_def next_io_def gc_fail_def
      record_gc_qtexts_def qtext_fetch_def example_defs)

section \<open>Properties of the Hybrid rule engine\<close>

lemma inner_lookup_rule_Some:
  assumes "inner_lookup_rule k s = Some k'"
  shows "k' = k" and "k \<in> key ` set (pgss_hash s)"
  using assms by (auto simp: inner_lookup_rule_def hash_find_def find_Some_iff)

lemma lookup_rule_Some:
  assumes "lookup_rule uid qid rule_type s = Some k"
  shows "key_type k = ucast rule_type \<and> queryid k = qid \<and> (userid k = uid \<or> userid k = InvalidOid)
         \<and> k \<in> key ` set (pgss_hash s)"
proof -
  let ?exact = "\<lparr>userid = uid, queryid = qid, key_type = ucast rule_type\<rparr>"
  let ?any = "\<lparr>userid = InvalidOid, queryid = qid, key_type = ucast rule_type\<rparr>"
  have "inner_lookup_rule ?exact s = Some k \<or> inner_lookup_rule ?any s = Some k"
    using assms by (auto simp: lookup_rule_def Let_def split: if_splits option.splits)
  then have "(k = ?exact \<or> k = ?any) \<and> k \<in> key ` set (pgss_hash s)"
    using inner_lookup_rule_Some [of ?exact s k] inner_lookup_rule_Some [of ?any s k] by blast
  then show ?thesis by auto
qed

lemma count_tagged_blacklist:
  assumes "\<forall>e \<in> set tab. tagged e" and "key_type k = ucast PGFW_BLACKLIST_ENTRY"
  shows "update_entry k count_entry tab =
         update_entry k (\<lambda>e. e\<lparr>counters := (counters e)\<lparr>banned := banned (counters e) + 1\<rparr>\<rparr>) tab"
  using assms
  by (induction tab)
     (auto simp: update_entry_def count_entry_def tagged_def PGFW_BLACKLIST_ENTRY_def
           PGFW_WHITELIST_ENTRY_def)

lemma count_tagged_whitelist:
  assumes "\<forall>e \<in> set tab. tagged e" and "key_type k = ucast PGFW_WHITELIST_ENTRY"
  shows "update_entry k count_entry tab =
         update_entry k (\<lambda>e. e\<lparr>counters := (counters e)\<lparr>calls := calls (counters e) + 1\<rparr>\<rparr>) tab"
  using assms
  by (induction tab)
     (auto simp: update_entry_def count_entry_def tagged_def PGFW_BLACKLIST_ENTRY_def
           PGFW_WHITELIST_ENTRY_def)

text \<open>
  The Hybrid engine on a store whose entries are all tagged with their rule kind.  The
  blacklist is looked up first and the whitelist only when the blacklist misses.  The
  verdict is prohibited iff there is no whitelist hit or there is a blacklist hit.  On
  a blacklist hit the banned counter of the blacklist entry goes up by one and nothing
  else changes, whether or not a whitelist entry matches too; on a whitelist hit
  without a blacklist hit the calls counter of the whitelist entry goes up by one and
  nothing else changes; with no hit nothing changes.
\<close>

lemma hybrid_verdict_tagged:
  assumes "pgfw_rule_engine s = PGFW_ENGINE_HYBRID"
    and "\<forall>e \<in> set (pgss_hash s). tagged e"
  shows "to_be_prohibited uid qid s =
     (Inr (lookup_whitelist uid qid s = None \<or> lookup_blacklist uid qid s \<noteq> None),
      (case lookup_blacklist uid qid s of
         Some kb \<Rightarrow>
           s\<lparr>pgss_hash :=
               update_entry kb (\<lambda>e. e\<lparr>counters := (counters e)\<lparr>banned := banned (counters e) + 1\<rparr>\<rparr>)
                 (pgss_hash s)\<rparr>
       | None \<Rightarrow>
           (case lookup_whitelist uid qid s of
              Some kw \<Rightarrow>
                s\<lparr>pgss_hash :=
                    update_entry kw (\<lambda>e. e\<lparr>counters := (counters e)\<lparr>calls := calls (counters e) + 1\<rparr>\<rparr>)
                      (pgss_hash s)\<rparr>
            | None \<Rightarrow> s)))"
proof (cases "lookup_blacklist uid qid s")
  case (Some kb)
  then have "key_type kb = ucast PGFW_BLACKLIST_ENTRY"
    using lookup_rule_Some [of uid qid PGFW_BLACKLIST_ENTRY s kb] by (simp add: lookup_blacklist_def)
  then show ?thesis
    using assms Some count_tagged_blacklist [OF assms(2)]
    by (simp add: to_be_prohibited_def inner_to_be_prohibited_def collect_entry_statistics_def)
next
  case None
  show ?thesis
  proof (cases "lookup_whitelist uid qid s")
    case n: None
    then show ?thesis
      using assms None
      by (simp add: to_be_prohibited_def inner_to_be_prohibited_def collect_entry_statistics_def)
  next
    case (Some kw)
    then have "key_type kw = ucast PGFW_WHITELIST_ENTRY"
      using lookup_rule_Some [of uid qid PGFW_WHITELIST_ENTRY s kw] by (simp add: lookup_whitelist_def)
    then show ?thesis
      using assms None Some count_tagged_whitelist [OF assms(2)]
      by (simp add: to_be_prohibited_def inner_to_be_prohibited_def collect_entry_statistics_def)
  qed
qed

text \<open>
  At the store with a whitelist and a blacklist rule for the same user and statement,
  as the administrative functions created it: the verdict is prohibited, the banned
  counter of the blacklist entry becomes 1 and the calls counters stay 0.
\<close>

lemma hybrid_both_match:
  "fst (to_be_prohibited 10 42 rules_state) = Inr True
   \<and> map counters (pgss_hash (snd (to_be_prohibited 10 42 rules_state)))
       = [\<lparr>calls = 0, banned = 0\<rparr>, \<lparr>calls = 0, banned = 1\<rparr>]"
  by (simp add: lookup_defs example_defs)

lemma load_loop_numeral:
  "load_loop valid (numeral n) buffer_size recs s = load_loop valid (Suc (pred_numeral n)) buffer_size recs s"
  by (simp only: numeral_eq_Suc)

lemma load_loop_one:
  "load_loop valid 1 buffer_size recs s = load_loop valid (Suc 0) buffer_size recs s"
  by simp

text \<open>
  A record of the statements file whose text length is below -1 makes the loader ask
  \<open>fread\<close> for more bytes than any file has: what is left of the file is copied into
  the buffer of 2048 bytes, beyond its end if more than that is left; otherwise the
  read counts as failed.
\<close>

lemma load_loop_negative_length:
  assumes "valid (encoding temp)" and "query_len temp = - 2"
  shows "load_loop valid (Suc n) 2048 ((temp, bytes) # recs) s =
           (if 2048 < rest_of_file bytes recs then (Inl (Crash BufferOverrun), s) else (Inr False, s))"
proof -
  have w: "unat (- 1 :: Size) = 18446744073709551615"
    by (simp add: unat_eq_nat_uint uint_word_ariths del: nat_uint_eq)
  have "length bytes \<le> rest_of_file bytes recs" by (simp add: rest_of_file_def)
  then show ?thesis using assms by (auto simp: Let_def w MaxAllocSize_def)
qed

text \<open>
  Claim C2 at a failing input.  The same two rules after a restart of the server:
  \<open>pgss_shmem_startup\<close> restores key, text and counters of each entry but not its \<open>type\<close>
  field, which is 0 in the new shared memory.  Both the whitelist and the blacklist
  entry match the statement 42 of user 10, the Hybrid verdict is prohibited, and the
  state after the evaluation is the state before it: \<open>collect_entry_statistics\<close>
  switches on the \<open>type\<close> field and increments no counter.
\<close>

theorem hybrid_blacklist_hit_after_restart:
  "pgfw_rule_engine restarted_state = PGFW_ENGINE_HYBRID
   \<and> map key (pgss_hash restarted_state) = [key wl_entry, key bl_entry]
   \<and> map entry_type (pgss_hash restarted_state) = [0, 0]
   \<and> lookup_whitelist 10 42 restarted_state = Some (key wl_entry)
   \<and> lookup_blacklist 10 42 restarted_state = Some (key bl_entry)
   \<and> to_be_prohibited 10 42 restarted_state = (Inr True, restarted_state)
   \<and> map counters (pgss_hash (snd (to_be_prohibited 10 42 restarted_state)))
       = [\<lparr>calls = 0, banned = 0\<rparr>, \<lparr>calls = 0, banned = 0\<rparr>]"
proof -
  have down: "snd (pgss_shmem_shutdown 0 rules_state) =
      rules_state\<lparr>qtext_file := [],
                  statements_file :=
                    Some \<lparr>file_header = PGSS_FILE_HEADER, file_pgver = 904, file_num = 2,
                          file_records = [(wl_entry, ''select ?'' @ [NUL]),
                                          (bl_entry, ''select ?'' @ [NUL])]\<rparr>,
                  counter_file := Some (0, 0)\<rparr>"
    by (simp add: pgss_shmem_shutdown_def update_firewall_rule_file_def
        update_firewall_counter_file_def qtext_load_file_def next_io_def qtext_fetch_def
        example_defs)
  have up: "restarted_state =
      rules_state\<lparr>pgfw_mode := PGFW_MODE_ENFORCING,
                  pgss := (pgss rules_state)\<lparr>extent := 18\<rparr>,
                  pgss_hash := [wl_entry\<lparr>entry_type := 0\<rparr>,
                                bl_entry\<lparr>entry_type := 0, query_offset := 9\<rparr>],
                  qtext_file := ''select ?'' @ [NUL] @ ''select ?'' @ [NUL],
                  statements_file :=
                    Some \<lparr>file_header = PGSS_FILE_HEADER, file_pgver = 904, file_num = 2,
                          file_records = [(wl_entry, ''select ?'' @ [NUL]),
                                          (bl_entry, ''select ?'' @ [NUL])]\<rparr>\<rparr>"
    unfolding restarted_state_def down
    by (simp add: pgss_shmem_startup_def next_io_def entry_alloc_def hash_find_def
        update_entry_def example_defs Let_def load_loop_numeral load_loop_one)
  show ?thesis
    unfolding up by (simp add: lookup_defs example_defs)
qed

end
